theory Spec2Isabelle
  imports Complex_Main
begin

section \<open>Python and numpy primitives\<close>

text \<open>
  The two components (\<^verbatim>\<open>PitFiller\<close> in \<^verbatim>\<open>pit_fill_pf.py\<close>, \<^verbatim>\<open>ChiFinder\<close> in
  \<^verbatim>\<open>channel_chi.py\<close>) work on numpy arrays held by a landlab grid. Indexing an array out of
  range raises \<^verbatim>\<open>IndexError\<close>; a negative index counts from the end; a failed \<^verbatim>\<open>assert\<close>
  raises \<^verbatim>\<open>AssertionError\<close>. Exceptions are values of type \<open>error\<close>.
\<close>

datatype error = IndexError | AssertionError | ValueError | FieldError

definition ebind :: "error + 'a \<Rightarrow> ('a \<Rightarrow> error + 'b) \<Rightarrow> error + 'b" where
  "ebind m f = (case m of Inl e \<Rightarrow> Inl e | Inr x \<Rightarrow> f x)"

definition py_index :: "nat \<Rightarrow> int \<Rightarrow> error + nat" where
  "py_index n i =
     (if 0 \<le> i \<and> i < int n then Inr (nat i)
      else if - int n \<le> i \<and> i < 0 then Inr (nat (int n + i))
      else Inl IndexError)"

definition py_get :: "'a list \<Rightarrow> int \<Rightarrow> error + 'a" where
  "py_get xs i = ebind (py_index (length xs) i) (\<lambda>j. Inr (xs ! j))"

definition py_set :: "'a list \<Rightarrow> int \<Rightarrow> 'a \<Rightarrow> error + 'a list" where
  "py_set xs i v = ebind (py_index (length xs) i) (\<lambda>j. Inr (xs[j := v]))"

text \<open>\<^verbatim>\<open>arr[idx]\<close> with an integer index array \<^verbatim>\<open>idx\<close>.\<close>

fun py_take :: "'a list \<Rightarrow> int list \<Rightarrow> error + 'a list" where
  "py_take xs [] = Inr []"
| "py_take xs (i # rest) =
     ebind (py_get xs i) (\<lambda>v. ebind (py_take xs rest) (\<lambda>vs. Inr (v # vs)))"

text \<open>\<^verbatim>\<open>arr[idx] = vals\<close>: where an index repeats, the last value stays.\<close>

fun py_put :: "'a list \<Rightarrow> int list \<Rightarrow> 'a list \<Rightarrow> error + 'a list" where
  "py_put xs (i # rest) (v # vs) = ebind (py_set xs i v) (\<lambda>xs'. py_put xs' rest vs)"
| "py_put xs _ _ = Inr xs"

text \<open>\<^verbatim>\<open>arr[idx] = scalar\<close>.\<close>

fun py_fill_at :: "'a list \<Rightarrow> int list \<Rightarrow> 'a \<Rightarrow> error + 'a list" where
  "py_fill_at xs [] v = Inr xs"
| "py_fill_at xs (i # rest) v = ebind (py_set xs i v) (\<lambda>xs'. py_fill_at xs' rest v)"

text \<open>\<^verbatim>\<open>arr[flags] = scalar\<close> with a boolean array \<^verbatim>\<open>flags\<close>, which has to be as long as
  \<^verbatim>\<open>arr\<close>.\<close>

definition py_fill_where :: "'a list \<Rightarrow> bool list \<Rightarrow> 'a \<Rightarrow> error + 'a list" where
  "py_fill_where xs flags v =
     (if length flags \<noteq> length xs then Inl IndexError
      else Inr (map (\<lambda>(x, b). if b then v else x) (zip xs flags)))"

section \<open>Floating-point values\<close>

text \<open>
  A float is a real number, plus or minus infinity, or not-a-number. Rounding, overflow and
  the sign of zero are left out; the special values are kept, because the code produces
  them: numpy divides by zero without raising (\<^verbatim>\<open>1/0 = inf\<close>, \<^verbatim>\<open>0/0 = nan\<close>) and the
  mean of an empty array is \<^verbatim>\<open>nan\<close>.
\<close>

datatype fl = Fin real | PInf | NInf | NaN

fun fadd :: "fl \<Rightarrow> fl \<Rightarrow> fl" where
  "fadd (Fin a) (Fin b) = Fin (a + b)"
| "fadd NaN _ = NaN"
| "fadd _ NaN = NaN"
| "fadd PInf NInf = NaN"
| "fadd NInf PInf = NaN"
| "fadd PInf _ = PInf"
| "fadd _ PInf = PInf"
| "fadd NInf _ = NInf"
| "fadd _ NInf = NInf"

definition inf_signed :: "bool \<Rightarrow> fl" where
  "inf_signed positive = (if positive then PInf else NInf)"

fun fmul :: "fl \<Rightarrow> fl \<Rightarrow> fl" where
  "fmul (Fin a) (Fin b) = Fin (a * b)"
| "fmul NaN _ = NaN"
| "fmul _ NaN = NaN"
| "fmul PInf (Fin b) = (if b = 0 then NaN else inf_signed (0 < b))"
| "fmul NInf (Fin b) = (if b = 0 then NaN else inf_signed (b < 0))"
| "fmul (Fin a) PInf = (if a = 0 then NaN else inf_signed (0 < a))"
| "fmul (Fin a) NInf = (if a = 0 then NaN else inf_signed (a < 0))"
| "fmul PInf PInf = PInf"
| "fmul NInf NInf = PInf"
| "fmul PInf NInf = NInf"
| "fmul NInf PInf = NInf"

fun fdiv :: "fl \<Rightarrow> fl \<Rightarrow> fl" where
  "fdiv (Fin a) (Fin b) =
     (if b \<noteq> 0 then Fin (a / b) else if a = 0 then NaN else inf_signed (0 < a))"
| "fdiv NaN _ = NaN"
| "fdiv _ NaN = NaN"
| "fdiv (Fin a) _ = Fin 0"
| "fdiv PInf (Fin b) = inf_signed (0 \<le> b)"
| "fdiv NInf (Fin b) = inf_signed (b < 0)"
| "fdiv PInf _ = NaN"
| "fdiv NInf _ = NaN"

text \<open>\<^verbatim>\<open>x ** y\<close> on floats, after C's \<^verbatim>\<open>pow\<close>.\<close>

definition pow_fin :: "real \<Rightarrow> real \<Rightarrow> fl" where
  "pow_fin x y =
     (if 0 < x then Fin (x powr y)
      else if x = 0 then (if 0 < y then Fin 0 else PInf)
      else if y = of_int \<lfloor>y\<rfloor>
        then (if even \<lfloor>y\<rfloor> then Fin (\<bar>x\<bar> powr y) else Fin (- (\<bar>x\<bar> powr y)))
        else NaN)"

fun fpow :: "fl \<Rightarrow> fl \<Rightarrow> fl" where
  "fpow x (Fin y) =
     (if y = 0 then Fin 1
      else case x of
        Fin a \<Rightarrow> pow_fin a y
      | PInf \<Rightarrow> (if 0 < y then PInf else Fin 0)
      | NInf \<Rightarrow> (if 0 < y then (if y = of_int \<lfloor>y\<rfloor> \<and> odd \<lfloor>y\<rfloor> then NInf else PInf) else Fin 0)
      | NaN \<Rightarrow> NaN)"
| "fpow (Fin a) PInf =
     (if \<bar>a\<bar> = 1 then Fin 1 else if \<bar>a\<bar> < 1 then Fin 0 else PInf)"
| "fpow (Fin a) NInf =
     (if \<bar>a\<bar> = 1 then Fin 1 else if \<bar>a\<bar> < 1 then PInf else Fin 0)"
| "fpow (Fin a) NaN = (if a = 1 then Fin 1 else NaN)"
| "fpow NaN _ = NaN"
| "fpow _ PInf = PInf"
| "fpow _ NInf = Fin 0"
| "fpow _ NaN = NaN"

text \<open>\<^verbatim>\<open>a <= b\<close> and \<^verbatim>\<open>a < b\<close>: every comparison with \<^verbatim>\<open>nan\<close> is false.\<close>

fun fle :: "fl \<Rightarrow> fl \<Rightarrow> bool" where
  "fle NaN _ = False"
| "fle _ NaN = False"
| "fle NInf _ = True"
| "fle _ PInf = True"
| "fle (Fin a) (Fin b) = (a \<le> b)"
| "fle _ _ = False"

definition flt :: "fl \<Rightarrow> fl \<Rightarrow> bool" where
  "flt a b = (fle a b \<and> a \<noteq> b)"

text \<open>\<^verbatim>\<open>arr.mean()\<close>: the sum divided by the number of elements, \<^verbatim>\<open>nan\<close> on an empty array.\<close>

definition mean :: "fl list \<Rightarrow> fl" where
  "mean xs = fdiv (foldl fadd (Fin 0) xs) (Fin (real (length xs)))"

text \<open>Finite and positive, finite and not negative.\<close>

fun fin_pos :: "fl \<Rightarrow> bool" where
  "fin_pos (Fin x) = (0 < x)"
| "fin_pos _ = False"

fun fin_nonneg :: "fl \<Rightarrow> bool" where
  "fin_nonneg (Fin x) = (0 \<le> x)"
| "fin_nonneg _ = False"

section \<open>The grid\<close>

text \<open>
  The grid is landlab's, not part of these sources: it is a parameter, a record of the
  fields and constants that the two components read. \<open>BAD_INDEX_VALUE\<close> and
  \<open>CLOSED_BOUNDARY\<close> are landlab constants imported by the components.
\<close>

record grid =
  number_of_nodes :: nat
  status_at_node :: "int list"
  neighbors_at_node :: "int list list"
  diagonals_at_node :: "int list list"
  cell_area_at_node :: "fl list"
  core_nodes :: "int list"
  link_length :: "fl list"
  drainage_area :: "fl list"
  upstream_node_order :: "int list"
  flow_receiver :: "int list"
  links_to_flow_receiver :: "int list"
  BAD_INDEX_VALUE :: int
  CLOSED_BOUNDARY :: int

section \<open>ChiFinder\<close>

record ChiFinder =
  reftheta :: fl
  min_drainage :: fl
  A0 :: fl
  use_true_dx :: bool
  chi :: "fl list"
  hillslope_mask :: "bool list"

text \<open>The keyword arguments of \<^verbatim>\<open>calculate_chi\<close>; \<open>None\<close> is a keyword that is not given.
  \<^verbatim>\<open>reference_area=None\<close> can be passed explicitly (\<open>Some None\<close>).\<close>

record kwds =
  kw_reference_concavity :: "fl option"
  kw_min_drainage_area :: "fl option"
  kw_reference_area :: "fl option option"
  kw_use_true_dx :: "bool option"

text \<open>\<^verbatim>\<open>float(cell_area_at_node)\<close> succeeds on an array of one element only; otherwise the
  mean cell area over the core nodes is taken.\<close>

definition default_reference_area :: "grid \<Rightarrow> error + fl" where
  "default_reference_area g =
     (case cell_area_at_node g of
        [a] \<Rightarrow> Inr a
      | _ \<Rightarrow> ebind (py_take (cell_area_at_node g) (core_nodes g)) (\<lambda>areas. Inr (mean areas)))"

definition init_ChiFinder :: "grid \<Rightarrow> fl \<Rightarrow> fl \<Rightarrow> fl option \<Rightarrow> bool \<Rightarrow> error + ChiFinder" where
  "init_ChiFinder g reference_concavity min_drainage_area reference_area use_true_dx' =
     ebind (case reference_area of
              None \<Rightarrow> default_reference_area g
            | Some a \<Rightarrow> if flt (Fin 0) a then Inr a else Inl AssertionError)
       (\<lambda>a0. Inr \<lparr> reftheta = reference_concavity, min_drainage = min_drainage_area,
                  A0 = a0, use_true_dx = use_true_dx',
                  chi = replicate (number_of_nodes g) (Fin 0),
                  hillslope_mask = replicate (number_of_nodes g) True \<rparr>)"

definition mean_channel_node_spacing :: "grid \<Rightarrow> int list \<Rightarrow> error + fl" where
  "mean_channel_node_spacing g ch_nodes =
     ebind (py_take (links_to_flow_receiver g) ch_nodes) (\<lambda>ch_links.
       let ch_links_valid = filter (\<lambda>l. l \<noteq> BAD_INDEX_VALUE g) ch_links in
       ebind (py_take (link_length g) ch_links_valid) (\<lambda>valid_link_lengths.
         Inr (mean valid_link_lengths)))"

fun avg_dx_loop :: "int list \<Rightarrow> (int \<times> fl) list \<Rightarrow> fl list \<Rightarrow> error + fl list" where
  "avg_dx_loop receivers [] chi_array = Inr chi_array"
| "avg_dx_loop receivers ((node, integrand) # rest) chi_array =
     ebind (py_get receivers node) (\<lambda>dstr_node.
     ebind (py_get chi_array dstr_node) (\<lambda>c.
     ebind (py_set chi_array node (fadd c integrand)) (\<lambda>chi_array'.
       avg_dx_loop receivers rest chi_array')))"

definition integrate_chi_avg_dx ::
  "grid \<Rightarrow> int list \<Rightarrow> fl list \<Rightarrow> fl list \<Rightarrow> fl \<Rightarrow> error + fl list" where
  "integrate_chi_avg_dx g valid_upstr_order chi_integrand chi_array mean_dx =
     ebind (avg_dx_loop (flow_receiver g) (zip valid_upstr_order chi_integrand) chi_array)
       (\<lambda>chi_array'. Inr (map (\<lambda>c. fmul c mean_dx) chi_array'))"

fun each_dx_loop ::
  "int list \<Rightarrow> int list \<Rightarrow> fl list \<Rightarrow> int \<Rightarrow> fl list \<Rightarrow> int list \<Rightarrow> fl list \<Rightarrow> error + fl list"
where
  "each_dx_loop receivers links link_lengths bad half_integrand [] chi_array = Inr chi_array"
| "each_dx_loop receivers links link_lengths bad half_integrand (node # rest) chi_array =
     ebind (py_get receivers node) (\<lambda>dstr_node.
     ebind (py_get links node) (\<lambda>dstr_link.
       if dstr_link \<noteq> bad then
         ebind (py_get link_lengths dstr_link) (\<lambda>dstr_length.
         ebind (py_get half_integrand node) (\<lambda>half_head_val.
         ebind (py_get half_integrand dstr_node) (\<lambda>half_tail_val.
         let mean_val = fadd half_head_val half_tail_val;
             chi_to_add = fmul mean_val dstr_length in
         ebind (py_get chi_array dstr_node) (\<lambda>c.
         ebind (py_set chi_array node (fadd c chi_to_add)) (\<lambda>chi_array'.
           each_dx_loop receivers links link_lengths bad half_integrand rest chi_array')))))
       else each_dx_loop receivers links link_lengths bad half_integrand rest chi_array))"

definition integrate_chi_each_dx ::
  "grid \<Rightarrow> int list \<Rightarrow> fl list \<Rightarrow> fl list \<Rightarrow> error + fl list" where
  "integrate_chi_each_dx g valid_upstr_order chi_integrand_at_nodes chi_array =
     (let half_integrand = map (fmul (Fin (1 / 2))) chi_integrand_at_nodes in
      each_dx_loop (flow_receiver g) (links_to_flow_receiver g) (link_length g)
        (BAD_INDEX_VALUE g) half_integrand valid_upstr_order chi_array)"

text \<open>The parameters of one call: a keyword overrides the value stored at construction.\<close>

definition eff_reftheta :: "ChiFinder \<Rightarrow> kwds \<Rightarrow> fl" where
  "eff_reftheta self kw = (case kw_reference_concavity kw of Some t \<Rightarrow> t | None \<Rightarrow> reftheta self)"

definition eff_min_drainage :: "ChiFinder \<Rightarrow> kwds \<Rightarrow> fl" where
  "eff_min_drainage self kw =
     (case kw_min_drainage_area kw of Some m \<Rightarrow> m | None \<Rightarrow> min_drainage self)"

definition eff_use_true_dx :: "ChiFinder \<Rightarrow> kwds \<Rightarrow> bool" where
  "eff_use_true_dx self kw = (case kw_use_true_dx kw of Some b \<Rightarrow> b | None \<Rightarrow> use_true_dx self)"

definition eff_A0 :: "grid \<Rightarrow> ChiFinder \<Rightarrow> kwds \<Rightarrow> error + fl" where
  "eff_A0 g self kw =
     ebind (case (case kw_reference_area kw of Some a \<Rightarrow> a | None \<Rightarrow> Some (A0 self)) of
              None \<Rightarrow> default_reference_area g
            | Some a \<Rightarrow> Inr a)
       (\<lambda>a0. if flt (Fin 0) a0 then Inr a0 else Inl AssertionError)"

definition calculate_chi :: "grid \<Rightarrow> ChiFinder \<Rightarrow> kwds \<Rightarrow> error + ChiFinder" where
  "calculate_chi g self kw =
     (let mask0 = replicate (length (hillslope_mask self)) True;
          chi0 = replicate (length (chi self)) (Fin 0);
          reftheta' = eff_reftheta self kw;
          min_drainage' = eff_min_drainage self kw
      in
      ebind (eff_A0 g self kw) (\<lambda>A0'.
      let use_true_dx' = eff_use_true_dx self kw;
          upstr_order = upstream_node_order g
      in
      ebind (py_take (drainage_area g) upstr_order) (\<lambda>upstr_areas.
      let valid_upstr_order =
            map fst (filter (\<lambda>(node, a). fle min_drainage' a) (zip upstr_order upstr_areas))
      in
      ebind (py_take (drainage_area g) valid_upstr_order) (\<lambda>valid_upstr_areas.
      ebind
        (if \<not> use_true_dx' then
           (let chi_integrand = map (\<lambda>a. fpow (fdiv A0' a) reftheta') valid_upstr_areas in
            ebind (mean_channel_node_spacing g valid_upstr_order) (\<lambda>mean_dx.
              integrate_chi_avg_dx g valid_upstr_order chi_integrand chi0 mean_dx))
         else
           ebind (py_put (replicate (number_of_nodes g) (Fin 0)) valid_upstr_order
                    (map (\<lambda>a. fpow (fdiv A0' a) reftheta') valid_upstr_areas))
             (\<lambda>chi_integrand. integrate_chi_each_dx g valid_upstr_order chi_integrand chi0))
        (\<lambda>chi1.
      ebind (py_fill_where chi1 (map (\<lambda>s. s = CLOSED_BOUNDARY g) (status_at_node g)) (Fin 0))
        (\<lambda>chi2.
      ebind (py_fill_at mask0 valid_upstr_order False) (\<lambda>mask1.
        Inr (self\<lparr> chi := chi2, hillslope_mask := mask1 \<rparr>))))))))"

section \<open>The specification's account of chi\<close>

text \<open>
  The definitions of this section follow the words of the specification, not the code: the
  flow network as total lookups on node ids, the valid nodes, the mean spacing, and the
  two integration rules as one update per valid node in topological order. They are what
  the code is compared with.
\<close>

definition area :: "grid \<Rightarrow> int \<Rightarrow> fl" where
  "area g node = drainage_area g ! nat node"

definition receiver :: "grid \<Rightarrow> int \<Rightarrow> int" where
  "receiver g node = flow_receiver g ! nat node"

definition link_to_receiver :: "grid \<Rightarrow> int \<Rightarrow> int" where
  "link_to_receiver g node = links_to_flow_receiver g ! nat node"

definition linkLength :: "grid \<Rightarrow> int \<Rightarrow> fl" where
  "linkLength g node = link_length g ! nat (link_to_receiver g node)"

definition spec_valid_nodes :: "grid \<Rightarrow> fl \<Rightarrow> int list" where
  "spec_valid_nodes g minDrainageArea =
     filter (\<lambda>node. fle minDrainageArea (area g node)) (upstream_node_order g)"

definition spec_mean_spacing :: "grid \<Rightarrow> int list \<Rightarrow> fl" where
  "spec_mean_spacing g valid =
     mean (map (linkLength g) (filter (\<lambda>node. link_to_receiver g node \<noteq> BAD_INDEX_VALUE g) valid))"

definition spec_uniform_step :: "grid \<Rightarrow> fl \<Rightarrow> fl \<Rightarrow> fl list \<Rightarrow> int \<Rightarrow> fl list" where
  "spec_uniform_step g a0 theta c node =
     c[nat node := fadd (c ! nat (receiver g node)) (fpow (fdiv a0 (area g node)) theta)]"

definition spec_chi_uniform :: "grid \<Rightarrow> fl \<Rightarrow> fl \<Rightarrow> fl \<Rightarrow> fl list" where
  "spec_chi_uniform g a0 theta minDrainageArea =
     (let valid = spec_valid_nodes g minDrainageArea;
          summed = foldl (spec_uniform_step g a0 theta) (replicate (number_of_nodes g) (Fin 0)) valid
      in map (\<lambda>c. fmul c (spec_mean_spacing g valid)) summed)"

definition spec_integrand :: "grid \<Rightarrow> fl \<Rightarrow> fl \<Rightarrow> int list \<Rightarrow> int \<Rightarrow> fl" where
  "spec_integrand g a0 theta valid node =
     (if node \<in> set valid then fpow (fdiv a0 (area g node)) theta else Fin 0)"

definition spec_exact_step :: "grid \<Rightarrow> (int \<Rightarrow> fl) \<Rightarrow> fl list \<Rightarrow> int \<Rightarrow> fl list" where
  "spec_exact_step g integrand c node =
     (if link_to_receiver g node \<noteq> BAD_INDEX_VALUE g
      then c[nat node := fadd (c ! nat (receiver g node))
               (fmul (fmul (Fin (1 / 2)) (fadd (integrand node) (integrand (receiver g node))))
                  (linkLength g node))]
      else c)"

definition spec_chi_exact :: "grid \<Rightarrow> fl \<Rightarrow> fl \<Rightarrow> fl \<Rightarrow> fl list" where
  "spec_chi_exact g a0 theta minDrainageArea =
     (let valid = spec_valid_nodes g minDrainageArea
      in foldl (spec_exact_step g (spec_integrand g a0 theta valid))
           (replicate (number_of_nodes g) (Fin 0)) valid)"

text \<open>
  A topological order in the sense of the specification lists no node twice and no node
  before its receiver. Both integration rules are instances of one update, which is applied
  at the nodes selected by \<open>act\<close> and adds the increment \<open>inc\<close> to the receiver's value.
\<close>

fun topological :: "grid \<Rightarrow> int list \<Rightarrow> bool" where
  "topological g [] = True"
| "topological g (node # rest) =
     (node \<notin> set rest \<and> receiver g node \<notin> set rest \<and> topological g rest)"

definition upd_step :: "grid \<Rightarrow> (int \<Rightarrow> bool) \<Rightarrow> (int \<Rightarrow> fl) \<Rightarrow> fl list \<Rightarrow> int \<Rightarrow> fl list" where
  "upd_step g act inc c node =
     (if act node then c[nat node := fadd (c ! nat (receiver g node)) (inc node)] else c)"

text \<open>Step 4 of the specification, line 219 of the code: chi is forced to 0 on closed
  boundary nodes.\<close>

definition stamp_closed :: "grid \<Rightarrow> fl list \<Rightarrow> fl list" where
  "stamp_closed g c =
     map (\<lambda>(x, s). if s = CLOSED_BOUNDARY g then Fin 0 else x) (zip c (status_at_node g))"

text \<open>
  A well-formed flow network: every per-node array has one entry per node, node ids and
  receivers are node ids, and a link to a receiver is the sentinel or a link id.
\<close>

definition wf_flow :: "grid \<Rightarrow> ChiFinder \<Rightarrow> bool" where
  "wf_flow g self =
     (let n = number_of_nodes g in
      length (chi self) = n \<and> length (hillslope_mask self) = n \<and>
      length (status_at_node g) = n \<and> length (drainage_area g) = n \<and>
      length (flow_receiver g) = n \<and> length (links_to_flow_receiver g) = n \<and>
      (\<forall>i \<in> set (upstream_node_order g). 0 \<le> i \<and> i < int n) \<and>
      (\<forall>r \<in> set (flow_receiver g). 0 \<le> r \<and> r < int n) \<and>
      (\<forall>l \<in> set (links_to_flow_receiver g).
         l \<noteq> BAD_INDEX_VALUE g \<longrightarrow> 0 \<le> l \<and> l < int (length (link_length g))))"

section \<open>A sample grid\<close>

text \<open>
  A channel of four nodes in a row: node 0 is the outlet (a fixed-value boundary), nodes 1
  and 2 drain towards it, node 3 is a closed boundary that drains nowhere. Link 0 joins
  nodes 0 and 1, link 1 joins nodes 1 and 2, link 2 joins nodes 2 and 3.
\<close>

definition channel_grid :: grid where
  "channel_grid =
     \<lparr> number_of_nodes = 4, status_at_node = [1, 0, 0, 4],
       neighbors_at_node = [[1, -1, -1, -1], [2, -1, 0, -1], [3, -1, 1, -1], [-1, -1, 2, -1]],
       diagonals_at_node = [[-1, -1, -1, -1], [-1, -1, -1, -1], [-1, -1, -1, -1], [-1, -1, -1, -1]],
       cell_area_at_node = [Fin 0, Fin 1, Fin 1, Fin 0], core_nodes = [1, 2],
       link_length = [Fin 1, Fin 2, Fin 1], drainage_area = [Fin 3, Fin 2, Fin 1, Fin 0],
       upstream_node_order = [0, 1, 2, 3], flow_receiver = [0, 0, 1, 3],
       links_to_flow_receiver = [-1, 0, 1, -1], BAD_INDEX_VALUE = -1, CLOSED_BOUNDARY = 4 \<rparr>"

definition channel_finder :: ChiFinder where
  "channel_finder =
     \<lparr> reftheta = Fin 1, min_drainage = Fin 1, A0 = Fin 1, use_true_dx = False,
       chi = replicate 4 (Fin 0), hillslope_mask = replicate 4 True \<rparr>"

definition no_kwds :: kwds where
  "no_kwds = \<lparr> kw_reference_concavity = None, kw_min_drainage_area = None,
                kw_reference_area = None, kw_use_true_dx = None \<rparr>"

section \<open>PitFiller\<close>

text \<open>
  The elevation field of the grid is a numpy array that the component and its caller share
  by reference, so arrays live in a heap: an address is a number, \<open>next_free\<close> is the
  next unused address, and \<open>elevation_field\<close> is the array that
  \<^verbatim>\<open>at_node['topographic__elevation']\<close> is bound to, if the field exists. Elevations are
  finite floats; the filler only compares and copies them, so they are reals here.
\<close>

record store =
  heap :: "nat \<Rightarrow> real list"
  next_free :: nat
  elevation_field :: "nat option"

text \<open>The attributes of a \<^verbatim>\<open>PitFiller\<close>; \<open>dem_ref\<close> is the address of \<^verbatim>\<open>self._dem\<close>.\<close>

record PitFiller =
  dem_ref :: nat
  n_nodes :: nat
  boundary :: "int list"
  open_boundary :: "int list"
  neighbors :: "int list list"

text \<open>\<^verbatim>\<open>np.where(cond)\<close> on a one-dimensional array: the indices where the condition holds,
  in increasing order. \<^verbatim>\<open>np.concatenate(..., axis=1)\<close> joins the rows of two arrays and
  raises \<^verbatim>\<open>ValueError\<close> when they do not have the same number of rows.\<close>

definition np_where :: "('a \<Rightarrow> bool) \<Rightarrow> 'a list \<Rightarrow> int list" where
  "np_where p xs = map (\<lambda>i. int i) (filter (\<lambda>i. p (xs ! i)) [0..<length xs])"

definition concatenate_axis1 :: "'a list list \<Rightarrow> 'a list list \<Rightarrow> error + 'a list list" where
  "concatenate_axis1 xs ys =
     (if length xs \<noteq> length ys then Inl ValueError
      else Inr (map (\<lambda>(x, y). x @ y) (zip xs ys)))"

text \<open>The constructor: \<^verbatim>\<open>.copy()\<close> allocates a new array for \<^verbatim>\<open>self._dem\<close>; a grid
  without the elevation field raises \<^verbatim>\<open>FieldError\<close>.\<close>

definition init_PitFiller :: "grid \<Rightarrow> store \<Rightarrow> error + PitFiller \<times> store" where
  "init_PitFiller input_grid st =
     (case elevation_field st of
        None \<Rightarrow> Inl FieldError
      | Some a \<Rightarrow>
          ebind (concatenate_axis1 (neighbors_at_node input_grid) (diagonals_at_node input_grid))
            (\<lambda>nbrs.
               Inr (\<lparr> dem_ref = next_free st,
                       n_nodes = number_of_nodes input_grid,
                       boundary = np_where (\<lambda>s. s \<noteq> 0) (status_at_node input_grid),
                       open_boundary = np_where (\<lambda>s. s = 1 \<or> s = 2) (status_at_node input_grid),
                       neighbors =
                         map (map (\<lambda>j. if j = BAD_INDEX_VALUE input_grid then - 1 else j)) nbrs \<rparr>,
                    st\<lparr> heap := (heap st)(next_free st := heap st a),
                        next_free := Suc (next_free st) \<rparr>)))"

text \<open>
  The state of \<^verbatim>\<open>pit_fill\<close>: the flags \<^verbatim>\<open>closed\<close>, the array \<^verbatim>\<open>self._dem\<close>, the FIFO queue
  \<^verbatim>\<open>raised_node\<close> and the priority queue. The priority queue holds tuples
  \<^verbatim>\<open>(elevation, node)\<close> and returns the least one in Python's tuple order; it is kept as
  a list in that order. Each node is put at most once, so the bound \<^verbatim>\<open>maxsize\<close> of the
  queues is not modelled. An exception carries the state in which it was raised.
\<close>

type_synonym fill_state = "bool list \<times> real list \<times> int list \<times> (real \<times> int) list"

definition tuple_le :: "real \<times> int \<Rightarrow> real \<times> int \<Rightarrow> bool" where
  "tuple_le a b = (fst a < fst b \<or> fst a = fst b \<and> snd a \<le> snd b)"

fun priority_put :: "real \<times> int \<Rightarrow> (real \<times> int) list \<Rightarrow> (real \<times> int) list" where
  "priority_put x [] = [x]"
| "priority_put x (y # ys) = (if tuple_le x y then x # y # ys else y # priority_put x ys)"

text \<open>Lines 42 to 44: the open boundary nodes are put in the priority queue and closed.\<close>

fun seed_boundary :: "int list \<Rightarrow> fill_state \<Rightarrow> error \<times> fill_state + fill_state" where
  "seed_boundary [] s = Inr s"
| "seed_boundary (i # rest) (closed_flags, dem, raised_node, priority_queue) =
     (case py_get dem i of
        Inl e \<Rightarrow> Inl (e, (closed_flags, dem, raised_node, priority_queue))
      | Inr z \<Rightarrow>
          (case py_set closed_flags i True of
             Inl e \<Rightarrow> Inl (e, (closed_flags, dem, raised_node, priority_put (z, i) priority_queue))
           | Inr closed_flags' \<Rightarrow>
               seed_boundary rest (closed_flags', dem, raised_node, priority_put (z, i) priority_queue)))"

text \<open>Lines 52 to 61: the body of the loop over the neighbors of \<open>node\<close>.\<close>

fun visit :: "int \<Rightarrow> int \<Rightarrow> fill_state \<Rightarrow> error \<times> fill_state + fill_state" where
  "visit node neighbor_node (closed_flags, dem, raised_node, priority_queue) =
     (if neighbor_node = - 1 then Inr (closed_flags, dem, raised_node, priority_queue)
      else case py_get closed_flags neighbor_node of
        Inl e \<Rightarrow> Inl (e, (closed_flags, dem, raised_node, priority_queue))
      | Inr True \<Rightarrow> Inr (closed_flags, dem, raised_node, priority_queue)
      | Inr False \<Rightarrow>
          (case py_set closed_flags neighbor_node True of
             Inl e \<Rightarrow> Inl (e, (closed_flags, dem, raised_node, priority_queue))
           | Inr closed_flags' \<Rightarrow>
          (case py_get dem neighbor_node of
             Inl e \<Rightarrow> Inl (e, (closed_flags', dem, raised_node, priority_queue))
           | Inr zn \<Rightarrow>
          (case py_get dem node of
             Inl e \<Rightarrow> Inl (e, (closed_flags', dem, raised_node, priority_queue))
           | Inr z \<Rightarrow>
               if zn \<le> z then
                 (case py_set dem neighbor_node z of
                    Inl e \<Rightarrow> Inl (e, (closed_flags', dem, raised_node, priority_queue))
                  | Inr dem' \<Rightarrow> Inr (closed_flags', dem', raised_node @ [neighbor_node], priority_queue))
               else Inr (closed_flags', dem, raised_node, priority_put (zn, neighbor_node) priority_queue)))))"

fun visit_neighbors :: "int \<Rightarrow> int list \<Rightarrow> fill_state \<Rightarrow> error \<times> fill_state + fill_state" where
  "visit_neighbors node [] s = Inr s"
| "visit_neighbors node (neighbor_node # rest) s =
     (case visit node neighbor_node s of
        Inl e \<Rightarrow> Inl e
      | Inr s' \<Rightarrow> visit_neighbors node rest s')"

text \<open>Lines 46 to 50: the FIFO queue is served first, then the priority queue.\<close>

fun pop_node :: "fill_state \<Rightarrow> (int \<times> fill_state) option" where
  "pop_node (closed_flags, dem, node # raised_node, priority_queue) =
     Some (node, (closed_flags, dem, raised_node, priority_queue))"
| "pop_node (closed_flags, dem, [], (elev, node) # priority_queue) =
     Some (node, (closed_flags, dem, [], priority_queue))"
| "pop_node (closed_flags, dem, [], []) = None"

definition process_node :: "int list list \<Rightarrow> int \<Rightarrow> fill_state \<Rightarrow> error \<times> fill_state + fill_state" where
  "process_node nbrs node s =
     (case py_get nbrs node of
        Inl e \<Rightarrow> Inl (e, s)
      | Inr row \<Rightarrow> visit_neighbors node row s)"

text \<open>The while loop ends: every pass takes one node out of a queue, and every node put
  in a queue closes a flag that was open.\<close>

definition work :: "fill_state \<Rightarrow> nat" where
  "work s = (case s of (closed_flags, dem, raised_node, priority_queue) \<Rightarrow>
     2 * length (filter Not closed_flags) + length raised_node + length priority_queue)"

function pit_loop :: "int list list \<Rightarrow> fill_state \<Rightarrow> error \<times> fill_state + fill_state" where
  "pit_loop nbrs s =
     (case pop_node s of
        None \<Rightarrow> Inr s
      | Some (node, s1) \<Rightarrow>
          (case process_node nbrs node s1 of
             Inl e \<Rightarrow> Inl e
           | Inr s2 \<Rightarrow> pit_loop nbrs s2))"
  by pat_completeness auto
termination
proof (relation "measure (\<lambda>(nbrs, s). work s)")
  show "wf (measure (\<lambda>(nbrs, s). work s))" by simp
next
  fix nbrs :: "int list list" and s x2 :: fill_state and x :: "int \<times> fill_state" and node s1 s2
  assume p: "pop_node s = Some x" and x: "(node, s1) = x"
    and pr: "process_node nbrs node s1 = Inr s2"
  have upd: "length (filter Not (c[k := True])) < length (filter Not c)"
    if "k < length c" "\<not> c ! k" for c k
  proof -
    have "filter Not (c[k := True]) = filter Not (take k c) @ filter Not (drop (Suc k) c)"
      using that by (simp add: upd_conv_take_nth_drop)
    moreover have "filter Not c = filter Not (take k c) @ (c ! k) # filter Not (drop (Suc k) c)"
      using that by (subst id_take_nth_drop[of k c]) simp_all
    ultimately show ?thesis by simp
  qed
  have put: "length (priority_put y q) = Suc (length q)" for y q
    by (induction q) simp_all
  have v: "visit nd nb t = Inr t' \<Longrightarrow> work t' \<le> work t" for nd nb t t'
  proof -
    assume a: "visit nd nb t = Inr t'"
    obtain c d r q where t: "t = (c, d, r, q)" by (cases t) auto
    show "work t' \<le> work t"
    proof (cases "nb = - 1")
      case True
      then show ?thesis using a t by simp
    next
      case False
      show ?thesis
      proof (cases "py_index (length c) nb")
        case (Inl e)
        then show ?thesis using a t False by (simp add: py_get_def ebind_def)
      next
        case (Inr k)
        then have k: "k < length c" by (auto simp: py_index_def split: if_splits)
        show ?thesis
        proof (cases "c ! k")
          case True
          then show ?thesis using a t False Inr by (simp add: py_get_def ebind_def)
        next
          case cf: False
          have "length (filter Not (c[k := True])) < length (filter Not c)"
            using k cf by (rule upd)
          then show ?thesis
            using a t False Inr cf
            by (auto simp: py_get_def py_set_def ebind_def work_def put
                split: sum.splits if_splits)
        qed
      qed
    qed
  qed
  have vs: "visit_neighbors nd row t = Inr t' \<Longrightarrow> work t' \<le> work t" for nd row t t'
  proof (induction row arbitrary: t)
    case Nil
    then show ?case by simp
  next
    case (Cons nb row)
    then obtain t1 where t1: "visit nd nb t = Inr t1" "visit_neighbors nd row t1 = Inr t'"
      by (auto split: sum.splits)
    then show ?case using v[OF t1(1)] Cons.IH[OF t1(2)] by simp
  qed
  have "work s2 \<le> work s1"
    using pr vs by (auto simp: process_node_def split: sum.splits)
  moreover have "work s1 < work s"
    using p x by (cases s rule: pop_node.cases) (auto simp: work_def)
  ultimately show "((nbrs, s2), (nbrs, s)) \<in> measure (\<lambda>(nbrs, s). work s)" by simp
qed

declare pit_loop.simps [simp del]

text \<open>\<open>flood\<close> is lines 31 to 61 on the array \<open>dem0\<close>; \<^verbatim>\<open>pit_fill\<close> runs it in place on
  \<^verbatim>\<open>self._dem\<close> and then binds the grid's elevation field to that array (line 63).\<close>

definition closed_of :: "fill_state \<Rightarrow> bool list" where
  "closed_of s = fst s"

definition dem_of :: "fill_state \<Rightarrow> real list" where
  "dem_of s = fst (snd s)"

definition flood :: "PitFiller \<Rightarrow> real list \<Rightarrow> error \<times> fill_state + fill_state" where
  "flood self dem0 =
     (case seed_boundary (open_boundary self) (replicate (n_nodes self) False, dem0, [], []) of
        Inl e \<Rightarrow> Inl e
      | Inr s0 \<Rightarrow> pit_loop (neighbors self) s0)"

definition pit_fill :: "PitFiller \<Rightarrow> store \<Rightarrow> error \<times> store + store" where
  "pit_fill self st =
     (case flood self (heap st (dem_ref self)) of
        Inl (e, s) \<Rightarrow> Inl (e, st\<lparr> heap := (heap st)(dem_ref self := dem_of s) \<rparr>)
      | Inr s \<Rightarrow>
          Inr (st\<lparr> heap := (heap st)(dem_ref self := dem_of s),
                   elevation_field := Some (dem_ref self) \<rparr>))"

text \<open>An index that Python accepts for an array of length \<open>n\<close>, and the position it
  reads.\<close>

definition in_range :: "nat \<Rightarrow> int \<Rightarrow> bool" where
  "in_range n j = (- int n \<le> j \<and> j < int n)"

definition ix :: "nat \<Rightarrow> int \<Rightarrow> nat" where
  "ix n j = (if 0 \<le> j then nat j else nat (int n + j))"

text \<open>The surface \<open>d\<close> is the surface \<open>d0\<close> with some elevations raised.\<close>

definition raised_from :: "real list \<Rightarrow> real list \<Rightarrow> bool" where
  "raised_from d0 d = (length d = length d0 \<and> (\<forall>i < length d0. d0 ! i \<le> d ! i))"

text \<open>
  What a caller can do to the grid's elevation field between two calls of the component:
  write one entry of the array in place, or bind the field to a new array.
\<close>

datatype field_edit = SetValue int real | Rebind "real list"

fun apply_edit :: "field_edit \<Rightarrow> store \<Rightarrow> error + store" where
  "apply_edit (SetValue i v) st =
     (case elevation_field st of
        None \<Rightarrow> Inl FieldError
      | Some a \<Rightarrow> ebind (py_set (heap st a) i v) (\<lambda>xs. Inr (st\<lparr> heap := (heap st)(a := xs) \<rparr>)))"
| "apply_edit (Rebind xs) st =
     Inr (st\<lparr> heap := (heap st)(next_free st := xs), next_free := Suc (next_free st),
              elevation_field := Some (next_free st) \<rparr>)"

fun apply_edits :: "field_edit list \<Rightarrow> store \<Rightarrow> error + store" where
  "apply_edits [] st = Inr st"
| "apply_edits (e # es) st = ebind (apply_edit e st) (apply_edits es)"

text \<open>Addresses in use are below \<open>next_free\<close>.\<close>

definition wf_store :: "store \<Rightarrow> bool" where
  "wf_store st = (case elevation_field st of None \<Rightarrow> True | Some a \<Rightarrow> a < next_free st)"

text \<open>
  A sample run on the channel grid with elevations 0, 3, 1, 2: the store before the
  filler is constructed, the filler, the store after construction, and the store after
  \<^verbatim>\<open>pit_fill\<close>, in which nodes 2 and 3 are raised to 3.
\<close>

definition pit_store :: store where
  "pit_store = \<lparr> heap = (\<lambda>_. [])(0 := [0, 3, 1, 2]), next_free = 1, elevation_field = Some 0 \<rparr>"

definition pit_filler :: PitFiller where
  "pit_filler =
     \<lparr> dem_ref = 1, n_nodes = 4, boundary = [0, 3], open_boundary = [0],
       neighbors = [[1, - 1, - 1, - 1, - 1, - 1, - 1, - 1], [2, - 1, 0, - 1, - 1, - 1, - 1, - 1],
                    [3, - 1, 1, - 1, - 1, - 1, - 1, - 1], [- 1, - 1, 2, - 1, - 1, - 1, - 1, - 1]] \<rparr>"

definition pit_store_copied :: store where
  "pit_store_copied =
     \<lparr> heap = (\<lambda>_. [])(0 := [0, 3, 1, 2], 1 := [0, 3, 1, 2]), next_free = 2,
       elevation_field = Some 0 \<rparr>"

definition pit_store_filled :: store where
  "pit_store_filled =
     \<lparr> heap = (\<lambda>_. [])(0 := [0, 3, 1, 2], 1 := [0, 3, 3, 3]), next_free = 2,
       elevation_field = Some 1 \<rparr>"

text \<open>
  Node \<open>v\<close> is in the neighbor list of node \<open>p\<close>; node \<open>k\<close> is one of the open boundary
  nodes that seed the flood.
\<close>

definition listed :: "int list list \<Rightarrow> nat \<Rightarrow> nat \<Rightarrow> nat \<Rightarrow> bool" where
  "listed nbrs n p v =
     (p < length nbrs \<and> (\<exists>j \<in> set (nbrs ! p). j \<noteq> - 1 \<and> in_range n j \<and> ix n j = v))"

definition is_seed :: "nat \<Rightarrow> int list \<Rightarrow> nat \<Rightarrow> bool" where
  "is_seed n seeds k = (\<exists>i \<in> set seeds. in_range n i \<and> ix n i = k)"

text \<open>
  A closed node drains when it is a seed, or when it is in the neighbor list of a node
  that drains and is not higher than it.
\<close>

inductive drains :: "int list list \<Rightarrow> nat \<Rightarrow> int list \<Rightarrow> bool list \<Rightarrow> real list \<Rightarrow> nat \<Rightarrow> bool"
  for nbrs :: "int list list" and n :: nat and seeds :: "int list"
    and c :: "bool list" and d :: "real list"
where
  drains_seed: "is_seed n seeds k \<Longrightarrow> k < length c \<Longrightarrow> c ! k \<Longrightarrow> drains nbrs n seeds c d k"
| drains_step: "drains nbrs n seeds c d p \<Longrightarrow> listed nbrs n p v \<Longrightarrow> v < length c \<Longrightarrow> c ! v \<Longrightarrow>
     d ! p \<le> d ! v \<Longrightarrow> drains nbrs n seeds c d v"

text \<open>
  The neighbor lists are symmetric when every node that is listed by a node lists that
  node in turn, as the adjacency of a landlab grid does.
\<close>

definition symmetric_neighbors :: "int list list \<Rightarrow> nat \<Rightarrow> bool" where
  "symmetric_neighbors nbrs n =
     (\<forall>p < length nbrs. \<forall>j \<in> set (nbrs ! p).
        j \<noteq> - 1 \<and> in_range n j \<longrightarrow> listed nbrs n (ix n j) p)"

text \<open>
  A path through the neighbor graph along which the elevation never rises: the next node
  of the path is in the neighbor list of the node before it, and is not higher.
\<close>

fun descending_path :: "int list list \<Rightarrow> nat \<Rightarrow> real list \<Rightarrow> nat list \<Rightarrow> bool" where
  "descending_path nbrs n d [] = False"
| "descending_path nbrs n d [x] = True"
| "descending_path nbrs n d (x # y # rest) =
     (listed nbrs n x y \<and> d ! y \<le> d ! x \<and> descending_path nbrs n d (y # rest))"

text \<open>The queues hold ids of closed nodes.\<close>

definition queued :: "fill_state \<Rightarrow> int set" where
  "queued s = (case s of (c, d, r, q) \<Rightarrow> set r \<union> snd ` set q)"

definition inv_basic :: "nat \<Rightarrow> fill_state \<Rightarrow> bool" where
  "inv_basic n s = (case s of (c, d, r, q) \<Rightarrow>
     length c = n \<and> length d = n \<and> (\<forall>j \<in> queued s. in_range n j \<and> c ! ix n j))"

definition inv_drains :: "int list list \<Rightarrow> nat \<Rightarrow> int list \<Rightarrow> fill_state \<Rightarrow> bool" where
  "inv_drains nbrs n seeds s = (case s of (c, d, r, q) \<Rightarrow>
     (\<forall>k < n. c ! k \<longrightarrow> drains nbrs n seeds c d k))"

definition in_visit :: "nat \<Rightarrow> int \<Rightarrow> fill_state \<Rightarrow> bool" where
  "in_visit n node s = (inv_basic n s \<and> in_range n node \<and> closed_of s ! ix n node)"

text \<open>
  A node is done when every id in its neighbor list is the sentinel or the id of a closed
  node. Between two passes of the while loop every closed node is in a queue or done;
  during the visit of \<open>node\<close>, that node is the exception.
\<close>

definition done_node :: "int list list \<Rightarrow> nat \<Rightarrow> bool list \<Rightarrow> nat \<Rightarrow> bool" where
  "done_node nbrs n c k = (\<forall>j \<in> set (nbrs ! k). j \<noteq> - 1 \<longrightarrow> in_range n j \<and> c ! ix n j)"

definition inv_front :: "int list list \<Rightarrow> nat \<Rightarrow> fill_state \<Rightarrow> bool" where
  "inv_front nbrs n s =
     (\<forall>k < n. closed_of s ! k \<longrightarrow> (\<exists>j \<in> queued s. ix n j = k) \<or> done_node nbrs n (closed_of s) k)"

definition front_in :: "int list list \<Rightarrow> nat \<Rightarrow> int \<Rightarrow> fill_state \<Rightarrow> bool" where
  "front_in nbrs n node s =
     (\<forall>k < n. closed_of s ! k \<longrightarrow>
        k = ix n node \<or> (\<exists>j \<in> queued s. ix n j = k) \<or> done_node nbrs n (closed_of s) k)"

text \<open>Every id in the neighbor lists is the sentinel or an index that Python accepts.\<close>

definition ids_in_range :: "int list list \<Rightarrow> nat \<Rightarrow> bool" where
  "ids_in_range nbrs n = (\<forall>row \<in> set nbrs. \<forall>j \<in> set row. j = - 1 \<or> in_range n j)"

text \<open>Two malformed variants of the sample filler: node 1 lists the id 7, which is no
  index of an array of length 4; node 0 lists the id -2, which Python reads as node 2.\<close>

definition dangling_filler :: PitFiller where
  "dangling_filler = pit_filler\<lparr> neighbors :=
     [[1, - 1, - 1, - 1, - 1, - 1, - 1, - 1], [2, - 1, 0, 7, - 1, - 1, - 1, - 1],
      [3, - 1, 1, - 1, - 1, - 1, - 1, - 1], [- 1, - 1, 2, - 1, - 1, - 1, - 1, - 1]] \<rparr>"

definition alias_filler :: PitFiller where
  "alias_filler = pit_filler\<lparr> neighbors :=
     [[1, - 2, - 1, - 1, - 1, - 1, - 1, - 1], [2, - 1, 0, - 1, - 1, - 1, - 1, - 1],
      [3, - 1, 1, - 1, - 1, - 1, - 1, - 1], [- 1, - 1, 2, - 1, - 1, - 1, - 1, - 1]] \<rparr>"

text \<open>
  The order of the flood. Between two passes of the while loop the priority queue is in
  the order of the elevations, each of its entries carries the elevation of its node, the
  nodes of the FIFO queue are all at one elevation, and no entry of the priority queue is
  below them. During the visit of \<open>node\<close>, that elevation is the elevation of \<open>node\<close>.
\<close>

definition inv_level :: "nat \<Rightarrow> fill_state \<Rightarrow> bool" where
  "inv_level n s = (case s of (c, d, r, q) \<Rightarrow>
     sorted_wrt (\<lambda>a b. fst a \<le> fst b) q \<and>
     (\<forall>x \<in> set q. fst x = d ! ix n (snd x)) \<and>
     (\<forall>j \<in> set r. \<forall>j' \<in> set r. d ! ix n j = d ! ix n j') \<and>
     (\<forall>j \<in> set r. \<forall>x \<in> set q. d ! ix n j \<le> fst x))"

definition level_in :: "nat \<Rightarrow> int \<Rightarrow> fill_state \<Rightarrow> bool" where
  "level_in n node s = (case s of (c, d, r, q) \<Rightarrow>
     sorted_wrt (\<lambda>a b. fst a \<le> fst b) q \<and>
     (\<forall>x \<in> set q. fst x = d ! ix n (snd x) \<and> d ! ix n node \<le> fst x) \<and>
     (\<forall>j \<in> set r. d ! ix n j = d ! ix n node))"

text \<open>
  A second run on the surface \<open>d1\<close> that a first run has produced, \<open>V\<close> being the nodes
  that the first run visited: the surface is still \<open>d1\<close>, only nodes of \<open>V\<close> are closed,
  and the seeds are closed.
\<close>

definition inv_rerun :: "nat \<Rightarrow> int list \<Rightarrow> bool list \<Rightarrow> real list \<Rightarrow> fill_state \<Rightarrow> bool" where
  "inv_rerun n seeds V d1 s =
     (dem_of s = d1 \<and> (\<forall>k < n. closed_of s ! k \<longrightarrow> V ! k) \<and>
      (\<forall>k < n. is_seed n seeds k \<longrightarrow> closed_of s ! k))"

section \<open>Properties of the Python primitives\<close>

lemma py_index_ok: "0 \<le> i \<Longrightarrow> i < int n \<Longrightarrow> py_index n i = Inr (nat i)"
  by (simp add: py_index_def)

lemma py_get_ok: "0 \<le> i \<Longrightarrow> i < int (length xs) \<Longrightarrow> py_get xs i = Inr (xs ! nat i)"
  by (simp add: py_get_def py_index_ok ebind_def)

lemma py_set_ok: "0 \<le> i \<Longrightarrow> i < int (length xs) \<Longrightarrow> py_set xs i v = Inr (xs[nat i := v])"
  by (simp add: py_set_def py_index_ok ebind_def)

lemma py_take_ok:
  "\<forall>i \<in> set idx. 0 \<le> i \<and> i < int (length xs) \<Longrightarrow>
   py_take xs idx = Inr (map (\<lambda>i. xs ! nat i) idx)"
  by (induction idx) (simp_all add: py_get_ok ebind_def)

lemma py_fill_at_ok:
  "\<forall>i \<in> set idx. 0 \<le> i \<and> i < int (length xs) \<Longrightarrow>
   py_fill_at xs idx v = Inr (foldl (\<lambda>a i. a[nat i := v]) xs idx)"
  by (induction idx arbitrary: xs) (simp_all add: py_set_ok ebind_def)

lemma py_put_ok:
  "\<forall>i \<in> set ns. 0 \<le> i \<and> i < int (length a) \<Longrightarrow>
   \<exists>arr. py_put a ns (map h ns) = Inr arr \<and> length arr = length a \<and>
     (\<forall>k < length a. arr ! k = (if int k \<in> set ns then h (int k) else a ! k))"
proof (induction ns arbitrary: a)
  case Nil
  then show ?case by simp
next
  case (Cons i ns)
  let ?a' = "a[nat i := h i]"
  have "\<forall>j \<in> set ns. 0 \<le> j \<and> j < int (length ?a')" using Cons.prems by simp
  from Cons.IH[OF this] obtain arr where
    arr: "py_put ?a' ns (map h ns) = Inr arr" "length arr = length ?a'"
      "\<forall>k < length ?a'. arr ! k = (if int k \<in> set ns then h (int k) else ?a' ! k)"
    by blast
  have "py_put a (i # ns) (map h (i # ns)) = Inr arr"
    using Cons.prems arr(1) by (simp add: py_set_ok ebind_def)
  moreover have "\<forall>k < length a. arr ! k = (if int k \<in> set (i # ns) then h (int k) else a ! k)"
  proof (intro allI impI)
    fix k assume k: "k < length a"
    have i0: "0 \<le> i" using Cons.prems by simp
    show "arr ! k = (if int k \<in> set (i # ns) then h (int k) else a ! k)"
    proof (cases "int k = i")
      case True
      then have "nat i = k" by simp
      then show ?thesis using arr(3) k True by auto
    next
      case False
      then have "nat i \<noteq> k" using i0 by auto
      then show ?thesis using arr(3) k False by auto
    qed
  qed
  ultimately show ?case using arr(2) by auto
qed

lemma py_fill_where_ok:
  "length (status_at_node g) = length c \<Longrightarrow>
   py_fill_where c (map (\<lambda>s. s = CLOSED_BOUNDARY g) (status_at_node g)) (Fin 0)
     = Inr (stamp_closed g c)"
  by (simp add: py_fill_where_def stamp_closed_def zip_map2 split_def)

lemma half_distrib:
  "fadd (fmul (Fin (1 / 2)) a) (fmul (Fin (1 / 2)) b) = fmul (Fin (1 / 2)) (fadd a b)"
  by (cases a; cases b) (simp_all add: inf_signed_def algebra_simps)

section \<open>ChiFinder: the code computes what the specification describes\<close>

lemma valid_order_filter:
  "map fst (filter (\<lambda>(node, a). P a) (zip ns (map f ns))) = filter (\<lambda>node. P (f node)) ns"
  by (induction ns) simp_all

lemma valid_in_range:
  "\<forall>i \<in> set (upstream_node_order g). 0 \<le> i \<and> i < int n \<Longrightarrow>
   \<forall>i \<in> set (spec_valid_nodes g m). 0 \<le> i \<and> i < int n"
  by (simp add: spec_valid_nodes_def)

lemma length_foldl_uniform [simp]:
  "length (foldl (spec_uniform_step g a0 theta) c ns) = length c"
  by (induction ns arbitrary: c) (simp_all add: spec_uniform_step_def)

lemma length_foldl_exact [simp]:
  "length (foldl (spec_exact_step g f) c ns) = length c"
  by (induction ns arbitrary: c) (simp_all add: spec_exact_step_def)

lemma length_spec_chi_uniform [simp]:
  "length (spec_chi_uniform g a0 theta m) = number_of_nodes g"
  by (simp add: spec_chi_uniform_def Let_def)

lemma length_spec_chi_exact [simp]:
  "length (spec_chi_exact g a0 theta m) = number_of_nodes g"
  by (simp add: spec_chi_exact_def Let_def)

lemma stamp_closed_nth:
  "length (status_at_node g) = length c \<Longrightarrow> k < length c \<Longrightarrow>
   stamp_closed g c ! k = (if status_at_node g ! k = CLOSED_BOUNDARY g then Fin 0 else c ! k)"
  by (simp add: stamp_closed_def)

lemma length_stamp_closed:
  "length (status_at_node g) = length c \<Longrightarrow> length (stamp_closed g c) = length c"
  by (simp add: stamp_closed_def)

lemma avg_dx_loop_ok:
  "length c = n \<Longrightarrow> length (flow_receiver g) = n \<Longrightarrow>
   \<forall>i \<in> set ns. 0 \<le> i \<and> i < int n \<Longrightarrow>
   \<forall>r \<in> set (flow_receiver g). 0 \<le> r \<and> r < int n \<Longrightarrow>
   avg_dx_loop (flow_receiver g) (zip ns (map (\<lambda>node. fpow (fdiv a0 (area g node)) theta) ns)) c
     = Inr (foldl (spec_uniform_step g a0 theta) c ns)"
proof (induction ns arbitrary: c)
  case Nil
  then show ?case by simp
next
  case (Cons node ns)
  have "nat node < length (flow_receiver g)" using Cons.prems by auto
  then have "receiver g node \<in> set (flow_receiver g)"
    unfolding receiver_def by (rule nth_mem)
  then have r: "0 \<le> receiver g node \<and> receiver g node < int n"
    using Cons.prems by blast
  have "avg_dx_loop (flow_receiver g)
          (zip (node # ns) (map (\<lambda>node. fpow (fdiv a0 (area g node)) theta) (node # ns))) c
        = avg_dx_loop (flow_receiver g)
          (zip ns (map (\<lambda>node. fpow (fdiv a0 (area g node)) theta) ns))
          (spec_uniform_step g a0 theta c node)"
    using Cons.prems r
    by (simp add: py_get_ok py_set_ok ebind_def spec_uniform_step_def receiver_def)
  also have "\<dots> = Inr (foldl (spec_uniform_step g a0 theta) (spec_uniform_step g a0 theta c node) ns)"
    using Cons.prems by (intro Cons.IH) (simp_all add: spec_uniform_step_def)
  finally show ?case by simp
qed

lemma mean_channel_node_spacing_ok:
  assumes "length (links_to_flow_receiver g) = n"
    and "\<forall>i \<in> set ns. 0 \<le> i \<and> i < int n"
    and "\<forall>l \<in> set (links_to_flow_receiver g).
           l \<noteq> BAD_INDEX_VALUE g \<longrightarrow> 0 \<le> l \<and> l < int (length (link_length g))"
  shows "mean_channel_node_spacing g ns = Inr (spec_mean_spacing g ns)"
proof -
  have t: "py_take (links_to_flow_receiver g) ns = Inr (map (link_to_receiver g) ns)"
    using assms(1,2) by (simp add: py_take_ok link_to_receiver_def)
  have m: "\<forall>node \<in> set ns. link_to_receiver g node \<in> set (links_to_flow_receiver g)"
    using assms(1,2) by (auto simp: link_to_receiver_def)
  have "\<forall>l \<in> set (filter (\<lambda>l. l \<noteq> BAD_INDEX_VALUE g) (map (link_to_receiver g) ns)).
          0 \<le> l \<and> l < int (length (link_length g))"
    using m assms(3) by auto
  then have "py_take (link_length g) (filter (\<lambda>l. l \<noteq> BAD_INDEX_VALUE g) (map (link_to_receiver g) ns))
        = Inr (map (\<lambda>l. link_length g ! nat l)
                 (filter (\<lambda>l. l \<noteq> BAD_INDEX_VALUE g) (map (link_to_receiver g) ns)))"
    by (rule py_take_ok)
  moreover have "(\<lambda>x. link_length g ! nat (link_to_receiver g x)) = linkLength g"
    by (simp add: fun_eq_iff linkLength_def)
  ultimately show ?thesis
    by (simp add: mean_channel_node_spacing_def t ebind_def spec_mean_spacing_def
        filter_map comp_def)
qed

lemma uniform_chi_value:
  assumes wf: "wf_flow g self"
    and a0: "eff_A0 g self kw = Inr a0"
    and mode: "\<not> eff_use_true_dx self kw"
  shows "\<exists>out. calculate_chi g self kw = Inr out \<and>
           chi out = stamp_closed g
             (spec_chi_uniform g a0 (eff_reftheta self kw) (eff_min_drainage self kw)) \<and>
           hillslope_mask out = foldl (\<lambda>a i. a[nat i := False])
             (replicate (number_of_nodes g) True) (spec_valid_nodes g (eff_min_drainage self kw))"
proof -
  let ?n = "number_of_nodes g"
  let ?m = "eff_min_drainage self kw"
  let ?valid = "spec_valid_nodes g ?m"
  have len: "length (chi self) = ?n" "length (hillslope_mask self) = ?n"
    "length (status_at_node g) = ?n" "length (drainage_area g) = ?n"
    "length (flow_receiver g) = ?n" "length (links_to_flow_receiver g) = ?n"
    and ord: "\<forall>i \<in> set (upstream_node_order g). 0 \<le> i \<and> i < int ?n"
    and rcv: "\<forall>r \<in> set (flow_receiver g). 0 \<le> r \<and> r < int ?n"
    and lnk: "\<forall>l \<in> set (links_to_flow_receiver g).
         l \<noteq> BAD_INDEX_VALUE g \<longrightarrow> 0 \<le> l \<and> l < int (length (link_length g))"
    using wf by (simp_all add: wf_flow_def Let_def)
  have vr: "\<forall>i \<in> set ?valid. 0 \<le> i \<and> i < int ?n"
    using ord by (rule valid_in_range)
  have t1: "py_take (drainage_area g) (upstream_node_order g)
              = Inr (map (area g) (upstream_node_order g))"
    using ord len by (simp add: py_take_ok area_def)
  have v: "map fst (filter (\<lambda>(node, a). fle ?m a)
             (zip (upstream_node_order g) (map (area g) (upstream_node_order g)))) = ?valid"
    by (simp add: valid_order_filter spec_valid_nodes_def)
  have t2: "py_take (drainage_area g) ?valid = Inr (map (area g) ?valid)"
    using vr len by (simp add: py_take_ok area_def)
  have sp: "mean_channel_node_spacing g ?valid = Inr (spec_mean_spacing g ?valid)"
    using len(6) vr lnk by (rule mean_channel_node_spacing_ok)
  have lp: "avg_dx_loop (flow_receiver g)
       (zip ?valid (map (\<lambda>node. fpow (fdiv a0 (area g node)) (eff_reftheta self kw)) ?valid))
       (replicate ?n (Fin 0))
     = Inr (foldl (spec_uniform_step g a0 (eff_reftheta self kw)) (replicate ?n (Fin 0)) ?valid)"
    using len(5) vr rcv by (intro avg_dx_loop_ok[where n = ?n]) simp_all
  have fa: "py_fill_at (replicate ?n True) ?valid False
     = Inr (foldl (\<lambda>a i. a[nat i := False]) (replicate ?n True) ?valid)"
    using vr by (intro py_fill_at_ok) simp
  show ?thesis
    using mode len
    by (simp add: calculate_chi_def a0 t1 v t2 sp lp fa ebind_def Let_def
        integrate_chi_avg_dx_def comp_def py_fill_where_ok spec_chi_uniform_def)
qed

lemma each_dx_loop_ok:
  assumes "length (flow_receiver g) = n" "length (links_to_flow_receiver g) = n"
    and "length half = n"
    and "\<forall>r \<in> set (flow_receiver g). 0 \<le> r \<and> r < int n"
    and "\<forall>l \<in> set (links_to_flow_receiver g).
           l \<noteq> BAD_INDEX_VALUE g \<longrightarrow> 0 \<le> l \<and> l < int (length (link_length g))"
    and "\<forall>k < n. half ! k = fmul (Fin (1 / 2)) (f (int k))"
  shows "length c = n \<Longrightarrow> \<forall>i \<in> set ns. 0 \<le> i \<and> i < int n \<Longrightarrow>
     each_dx_loop (flow_receiver g) (links_to_flow_receiver g) (link_length g)
        (BAD_INDEX_VALUE g) half ns c
      = Inr (foldl (spec_exact_step g f) c ns)"
proof (induction ns arbitrary: c)
  case Nil
  then show ?case by simp
next
  case (Cons node ns)
  have nd: "0 \<le> node" "node < int n" "nat node < n" using Cons.prems by auto
  have "receiver g node \<in> set (flow_receiver g)"
    unfolding receiver_def using nd assms(1) by (intro nth_mem) simp
  then have r: "0 \<le> receiver g node" "receiver g node < int n" "nat (receiver g node) < n"
    using assms(4) by auto
  have lm: "link_to_receiver g node \<in> set (links_to_flow_receiver g)"
    unfolding link_to_receiver_def using nd assms(2) by (intro nth_mem) simp
  have g1: "py_get (flow_receiver g) node = Inr (receiver g node)"
    using nd assms(1) by (simp add: py_get_ok receiver_def)
  have g2: "py_get (links_to_flow_receiver g) node = Inr (link_to_receiver g node)"
    using nd assms(2) by (simp add: py_get_ok link_to_receiver_def)
  have g4: "py_get half node = Inr (fmul (Fin (1 / 2)) (f node))"
    using nd assms(3,6) by (simp add: py_get_ok)
  have g5: "py_get half (receiver g node) = Inr (fmul (Fin (1 / 2)) (f (receiver g node)))"
    using r assms(3,6) by (simp add: py_get_ok)
  have g6: "py_get c (receiver g node) = Inr (c ! nat (receiver g node))"
    using r Cons.prems(1) by (simp add: py_get_ok)
  have g7: "\<And>v. py_set c node v = Inr (c[nat node := v])"
    using nd Cons.prems(1) by (simp add: py_set_ok)
  have len': "length (spec_exact_step g f c node) = n"
    using Cons.prems(1) by (simp add: spec_exact_step_def)
  have rest: "\<forall>i \<in> set ns. 0 \<le> i \<and> i < int n" using Cons.prems(2) by simp
  show ?case
  proof (cases "link_to_receiver g node \<noteq> BAD_INDEX_VALUE g")
    case True
    then have "0 \<le> link_to_receiver g node \<and> link_to_receiver g node < int (length (link_length g))"
      using lm assms(5) by blast
    then have g3: "py_get (link_length g) (link_to_receiver g node) = Inr (linkLength g node)"
      by (simp add: py_get_ok linkLength_def)
    have "each_dx_loop (flow_receiver g) (links_to_flow_receiver g) (link_length g)
            (BAD_INDEX_VALUE g) half (node # ns) c
          = each_dx_loop (flow_receiver g) (links_to_flow_receiver g) (link_length g)
            (BAD_INDEX_VALUE g) half ns (spec_exact_step g f c node)"
      using True
      by (simp add: g1 g2 g3 g4 g5 g6 g7 ebind_def Let_def half_distrib spec_exact_step_def)
    then show ?thesis using Cons.IH[OF len' rest] by simp
  next
    case False
    then have "each_dx_loop (flow_receiver g) (links_to_flow_receiver g) (link_length g)
            (BAD_INDEX_VALUE g) half (node # ns) c
          = each_dx_loop (flow_receiver g) (links_to_flow_receiver g) (link_length g)
            (BAD_INDEX_VALUE g) half ns (spec_exact_step g f c node)"
      by (simp add: g1 g2 ebind_def spec_exact_step_def)
    then show ?thesis using Cons.IH[OF len' rest] by simp
  qed
qed

lemma exact_chi_value:
  assumes wf: "wf_flow g self"
    and a0: "eff_A0 g self kw = Inr a0"
    and mode: "eff_use_true_dx self kw"
  shows "\<exists>out. calculate_chi g self kw = Inr out \<and>
           chi out = stamp_closed g
             (spec_chi_exact g a0 (eff_reftheta self kw) (eff_min_drainage self kw)) \<and>
           hillslope_mask out = foldl (\<lambda>a i. a[nat i := False])
             (replicate (number_of_nodes g) True) (spec_valid_nodes g (eff_min_drainage self kw))"
proof -
  let ?n = "number_of_nodes g"
  let ?m = "eff_min_drainage self kw"
  let ?th = "eff_reftheta self kw"
  let ?valid = "spec_valid_nodes g ?m"
  let ?h = "\<lambda>node. fpow (fdiv a0 (area g node)) ?th"
  have len: "length (chi self) = ?n" "length (hillslope_mask self) = ?n"
    "length (status_at_node g) = ?n" "length (drainage_area g) = ?n"
    "length (flow_receiver g) = ?n" "length (links_to_flow_receiver g) = ?n"
    and ord: "\<forall>i \<in> set (upstream_node_order g). 0 \<le> i \<and> i < int ?n"
    and rcv: "\<forall>r \<in> set (flow_receiver g). 0 \<le> r \<and> r < int ?n"
    and lnk: "\<forall>l \<in> set (links_to_flow_receiver g).
         l \<noteq> BAD_INDEX_VALUE g \<longrightarrow> 0 \<le> l \<and> l < int (length (link_length g))"
    using wf by (simp_all add: wf_flow_def Let_def)
  have vr: "\<forall>i \<in> set ?valid. 0 \<le> i \<and> i < int ?n"
    using ord by (rule valid_in_range)
  have t1: "py_take (drainage_area g) (upstream_node_order g)
              = Inr (map (area g) (upstream_node_order g))"
    using ord len by (simp add: py_take_ok area_def)
  have v: "map fst (filter (\<lambda>(node, a). fle ?m a)
             (zip (upstream_node_order g) (map (area g) (upstream_node_order g)))) = ?valid"
    by (simp add: valid_order_filter spec_valid_nodes_def)
  have t2: "py_take (drainage_area g) ?valid = Inr (map (area g) ?valid)"
    using vr len by (simp add: py_take_ok area_def)
  have "\<forall>i \<in> set ?valid. 0 \<le> i \<and> i < int (length (replicate ?n (Fin 0)))"
    using vr by simp
  from py_put_ok[OF this, of ?h] obtain arr where
    arr: "py_put (replicate ?n (Fin 0)) ?valid (map ?h ?valid) = Inr arr" "length arr = ?n"
      "\<forall>k < ?n. arr ! k = (if int k \<in> set ?valid then ?h (int k) else Fin 0)"
    by auto
  have half: "\<forall>k < ?n. map (fmul (Fin (1 / 2))) arr ! k
                = fmul (Fin (1 / 2)) (spec_integrand g a0 ?th ?valid (int k))"
    using arr(2,3) by (simp add: spec_integrand_def)
  have lp: "each_dx_loop (flow_receiver g) (links_to_flow_receiver g) (link_length g)
        (BAD_INDEX_VALUE g) (map (fmul (Fin (1 / 2))) arr) ?valid (replicate ?n (Fin 0))
      = Inr (foldl (spec_exact_step g (spec_integrand g a0 ?th ?valid)) (replicate ?n (Fin 0)) ?valid)"
    using len(5,6) arr(2) rcv lnk half vr
    by (intro each_dx_loop_ok[where n = ?n]) simp_all
  have fa: "py_fill_at (replicate ?n True) ?valid False
     = Inr (foldl (\<lambda>a i. a[nat i := False]) (replicate ?n True) ?valid)"
    using vr by (intro py_fill_at_ok) simp
  show ?thesis
    using mode len
    by (simp add: calculate_chi_def a0 t1 v t2 arr(1) lp fa ebind_def Let_def
        integrate_chi_each_dx_def comp_def py_fill_where_ok spec_chi_exact_def)
qed

lemma exact_untouched:
  "\<forall>x \<in> set ns. nat x = k \<longrightarrow> link_to_receiver g x = BAD_INDEX_VALUE g \<Longrightarrow>
   foldl (spec_exact_step g f) c ns ! k = c ! k"
  by (induction ns arbitrary: c) (auto simp: spec_exact_step_def)

lemmas chi_eval =
  calculate_chi_def channel_grid_def channel_finder_def no_kwds_def eff_A0_def eff_reftheta_def
  eff_min_drainage_def eff_use_true_dx_def ebind_def py_get_def py_set_def py_index_def flt_def
  mean_channel_node_spacing_def integrate_chi_avg_dx_def integrate_chi_each_dx_def mean_def
  pow_fin_def py_fill_where_def inf_signed_def Let_def eval_nat_numeral

lemmas spec_eval =
  spec_chi_uniform_def spec_chi_exact_def spec_valid_nodes_def spec_mean_spacing_def
  spec_uniform_step_def spec_exact_step_def spec_integrand_def area_def receiver_def
  link_to_receiver_def linkLength_def mean_def pow_fin_def inf_signed_def channel_grid_def
  Let_def eval_nat_numeral

lemma wf_channel: "wf_flow channel_grid channel_finder"
  by (simp add: wf_flow_def channel_grid_def channel_finder_def)




text \<open>
  Claim C2. In exact-spacing mode (\<^verbatim>\<open>use_true_dx = True\<close>), on a well-formed flow network,
  the integrand is \<open>(A0/area(node))^\<theta>\<close> at valid nodes and 0 elsewhere, and the chi
  array is the result of visiting the valid nodes in topological order, where a node with
  a link to its receiver gets
  \<open>chi[node] = chi[receiver(node)] + 0.5 * (integrand(node) + integrand(receiver(node))) * linkLength\<close>
  and a node whose link is the sentinel leaves the array as it is; such a node ends with
  chi 0. (The array is returned after step 4, the zeroing of closed boundary nodes.)
\<close>

theorem chi_exact_mode_result:
  assumes "wf_flow g self" and "eff_A0 g self kw = Inr a0" and "eff_use_true_dx self kw"
  shows "\<exists>out. calculate_chi g self kw = Inr out \<and> length (chi out) = number_of_nodes g \<and>
    (\<forall>node < number_of_nodes g.
       chi out ! node =
         (if status_at_node g ! node = CLOSED_BOUNDARY g then Fin 0
          else spec_chi_exact g a0 (eff_reftheta self kw) (eff_min_drainage self kw) ! node)) \<and>
    (\<forall>node \<in> set (spec_valid_nodes g (eff_min_drainage self kw)).
       link_to_receiver g node = BAD_INDEX_VALUE g \<longrightarrow> chi out ! nat node = Fin 0)"
proof -
  let ?valid = "spec_valid_nodes g (eff_min_drainage self kw)"
  let ?spec = "spec_chi_exact g a0 (eff_reftheta self kw) (eff_min_drainage self kw)"
  from exact_chi_value[OF assms] obtain out where
    out: "calculate_chi g self kw = Inr out" "chi out = stamp_closed g ?spec"
    by blast
  have len: "length (status_at_node g) = number_of_nodes g"
    and ord: "\<forall>i \<in> set (upstream_node_order g). 0 \<le> i \<and> i < int (number_of_nodes g)"
    using assms(1) by (simp_all add: wf_flow_def Let_def)
  have nth: "\<forall>node < number_of_nodes g. chi out ! node =
         (if status_at_node g ! node = CLOSED_BOUNDARY g then Fin 0 else ?spec ! node)"
    using out len by (simp add: stamp_closed_nth)
  have "chi out ! nat node = Fin 0"
    if nd: "node \<in> set ?valid" and bad: "link_to_receiver g node = BAD_INDEX_VALUE g" for node
  proof -
    have vr: "\<forall>i \<in> set ?valid. 0 \<le> i \<and> i < int (number_of_nodes g)"
      using ord by (rule valid_in_range)
    have rng: "0 \<le> node \<and> node < int (number_of_nodes g)"
      using vr nd by blast
    have "\<forall>x \<in> set ?valid. nat x = nat node \<longrightarrow> link_to_receiver g x = BAD_INDEX_VALUE g"
    proof (intro ballI impI)
      fix x assume "x \<in> set ?valid" and e: "nat x = nat node"
      then have "0 \<le> x" using vr by blast
      then have "x = node" using e rng by arith
      then show "link_to_receiver g x = BAD_INDEX_VALUE g" using bad by simp
    qed
    then have "?spec ! nat node = replicate (number_of_nodes g) (Fin 0) ! nat node"
      unfolding spec_chi_exact_def Let_def by (rule exact_untouched)
    moreover have nn: "nat node < number_of_nodes g" using rng by arith
    ultimately have "?spec ! nat node = Fin 0" by simp
    then show ?thesis using nth nn by auto
  qed
  then show ?thesis using out len nth by (simp add: length_stamp_closed)
qed

theorem chi_exact_mode_result_witness:
  "wf_flow channel_grid channel_finder \<and>
   eff_A0 channel_grid channel_finder (no_kwds\<lparr> kw_use_true_dx := Some True \<rparr>) = Inr (Fin 1) \<and>
   eff_use_true_dx channel_finder (no_kwds\<lparr> kw_use_true_dx := Some True \<rparr>) \<and>
   (\<exists>out. calculate_chi channel_grid channel_finder (no_kwds\<lparr> kw_use_true_dx := Some True \<rparr>)
           = Inr out \<and>
      chi out ! 0 = Fin 0 \<and> chi out ! 1 = Fin (5 / 12) \<and> chi out ! 2 = Fin (23 / 12))"
proof -
  let ?kw = "no_kwds\<lparr> kw_use_true_dx := Some True \<rparr>"
  have h1: "wf_flow channel_grid channel_finder" by (rule wf_channel)
  have h2: "eff_A0 channel_grid channel_finder ?kw = Inr (Fin 1)"
    by (simp add: eff_A0_def channel_finder_def no_kwds_def ebind_def flt_def)
  have h3: "eff_use_true_dx channel_finder ?kw"
    by (simp add: eff_use_true_dx_def channel_finder_def no_kwds_def)
  have s: "spec_chi_exact channel_grid (Fin 1) (eff_reftheta channel_finder ?kw)
             (eff_min_drainage channel_finder ?kw) = [Fin 0, Fin (5 / 12), Fin (23 / 12), Fin 0]"
    by (simp add: spec_eval eff_reftheta_def eff_min_drainage_def channel_finder_def no_kwds_def)
  from chi_exact_mode_result[OF h1 h2 h3] obtain out where
    out: "calculate_chi channel_grid channel_finder ?kw = Inr out"
      "\<forall>node < number_of_nodes channel_grid.
       chi out ! node =
         (if status_at_node channel_grid ! node = CLOSED_BOUNDARY channel_grid then Fin 0
          else spec_chi_exact channel_grid (Fin 1) (eff_reftheta channel_finder ?kw)
                 (eff_min_drainage channel_finder ?kw) ! node)"
    by blast
  have "chi out ! 0 = Fin 0 \<and> chi out ! 1 = Fin (5 / 12) \<and> chi out ! 2 = Fin (23 / 12)"
    using out(2) unfolding s by (simp add: channel_grid_def)
  then show ?thesis using h1 h2 h3 out(1) by blast
qed

section \<open>ChiFinder: what holds of the mask and of the degenerate call\<close>

lemma mask_after_fill:
  "\<forall>i \<in> set ns. 0 \<le> i \<Longrightarrow> k < length a \<Longrightarrow>
   foldl (\<lambda>a i. a[nat i := False]) a ns ! k = (a ! k \<and> int k \<notin> set ns)"
proof (induction ns arbitrary: a)
  case Nil
  then show ?case by simp
next
  case (Cons i ns)
  have "foldl (\<lambda>a i. a[nat i := False]) (a[nat i := False]) ns ! k
          = (a[nat i := False] ! k \<and> int k \<notin> set ns)"
    using Cons.prems by (intro Cons.IH) simp_all
  moreover have "a[nat i := False] ! k = (a ! k \<and> int k \<noteq> i)"
    using Cons.prems by (cases "nat i = k") auto
  ultimately show ?case by auto
qed

lemma calculate_chi_mask_and_closed:
  assumes "wf_flow g self" and "eff_A0 g self kw = Inr a0"
  shows "\<exists>out. calculate_chi g self kw = Inr out \<and>
           (\<forall>node < number_of_nodes g.
              (\<not> hillslope_mask out ! node) =
                (int node \<in> set (spec_valid_nodes g (eff_min_drainage self kw)))) \<and>
           (\<forall>node < number_of_nodes g.
              status_at_node g ! node = CLOSED_BOUNDARY g \<longrightarrow> chi out ! node = Fin 0)"
proof -
  let ?n = "number_of_nodes g"
  let ?V = "spec_valid_nodes g (eff_min_drainage self kw)"
  have len: "length (status_at_node g) = ?n"
    and ord: "\<forall>i \<in> set (upstream_node_order g). 0 \<le> i \<and> i < int ?n"
    using assms(1) by (simp_all add: wf_flow_def Let_def)
  have vr: "\<forall>i \<in> set ?V. 0 \<le> i" using valid_in_range[OF ord] by blast
  obtain out c where out: "calculate_chi g self kw = Inr out" "chi out = stamp_closed g c"
    "length c = ?n"
    "hillslope_mask out = foldl (\<lambda>a i. a[nat i := False]) (replicate ?n True) ?V"
  proof (cases "eff_use_true_dx self kw")
    case True
    from exact_chi_value[OF assms True] show ?thesis
      by (auto intro: that[where c = "spec_chi_exact g a0 (eff_reftheta self kw)
          (eff_min_drainage self kw)"])
  next
    case False
    from uniform_chi_value[OF assms False] show ?thesis
      by (auto intro: that[where c = "spec_chi_uniform g a0 (eff_reftheta self kw)
          (eff_min_drainage self kw)"])
  qed
  have "\<forall>node < ?n. (\<not> hillslope_mask out ! node) = (int node \<in> set ?V)"
    unfolding out(4) using vr by (simp add: mask_after_fill)
  moreover have "\<forall>node < ?n. status_at_node g ! node = CLOSED_BOUNDARY g \<longrightarrow>
      chi out ! node = Fin 0"
    unfolding out(2) using len out(3) by (simp add: stamp_closed_nth)
  ultimately show ?thesis using out(1) by blast
qed

lemma calculate_chi_no_valid_nodes_exact:
  assumes "wf_flow g self" and "eff_A0 g self kw = Inr a0" and "eff_use_true_dx self kw"
    and "spec_valid_nodes g (eff_min_drainage self kw) = []"
  shows "\<exists>out. calculate_chi g self kw = Inr out \<and>
           chi out = replicate (number_of_nodes g) (Fin 0) \<and>
           hillslope_mask out = replicate (number_of_nodes g) True"
proof -
  have len: "length (status_at_node g) = number_of_nodes g"
    using assms(1) by (simp add: wf_flow_def Let_def)
  have "stamp_closed g (replicate (number_of_nodes g) (Fin 0)) = replicate (number_of_nodes g) (Fin 0)"
    using len by (intro nth_equalityI) (simp_all add: length_stamp_closed stamp_closed_nth)
  then show ?thesis
    using exact_chi_value[OF assms(1,2,3)] assms(4) by (simp add: spec_chi_exact_def)
qed

lemma init_channel_finder:
  "init_ChiFinder channel_grid (Fin 1) (Fin 1) None False = Inr channel_finder"
  by (simp add: init_ChiFinder_def default_reference_area_def channel_grid_def channel_finder_def
      ebind_def py_get_def py_index_def mean_def)

text \<open>
  Claim C5 says that a call with no valid node returns chi 0 at every node and the mask
  true at every node, in both modes. In uniform-spacing mode the code does not: the mean
  spacing is the mean of an empty array, \<^verbatim>\<open>nan\<close>, and \<^verbatim>\<open>chi_array *= mean_dx\<close> turns every
  zero into \<^verbatim>\<open>nan\<close>; only the closed boundary node is reset to 0. (In exact-spacing mode
  the outputs are the defaults, by \<open>calculate_chi_no_valid_nodes_exact\<close>.) On the sample
  grid with \<^verbatim>\<open>min_drainage_area = 100\<close>:
\<close>

theorem chi_no_valid_nodes_uniform_nan:
  "map_sum id (\<lambda>out. (chi out, hillslope_mask out))
     (calculate_chi channel_grid channel_finder
        (no_kwds\<lparr> kw_min_drainage_area := Some (Fin 100) \<rparr>))
     = Inr ([NaN, NaN, NaN, Fin 0], [True, True, True, True])"
  by (simp add: chi_eval)

text \<open>
  Claim C6 says that a node whose drainage area is below the threshold has chi 0. With
  \<^verbatim>\<open>min_drainage_area = 3\<close> the outlet is the only valid node of the sample grid; it has no
  link to a receiver, so the mean spacing is again \<^verbatim>\<open>nan\<close>, and nodes 1 and 2, below the
  threshold, end with chi \<^verbatim>\<open>nan\<close>. (What the claim says of the mask and of the closed
  boundary nodes holds, by \<open>calculate_chi_mask_and_closed\<close>.)
\<close>

theorem chi_below_threshold_nan:
  "map_sum id (\<lambda>out. (chi out, hillslope_mask out))
     (calculate_chi channel_grid channel_finder
        (no_kwds\<lparr> kw_min_drainage_area := Some (Fin 3) \<rparr>))
     = Inr ([NaN, NaN, NaN, Fin 0], [False, True, True, True])"
  by (simp add: chi_eval)

section \<open>ChiFinder: chi does not decrease upstream\<close>

lemma fin_nonneg_iff: "fin_nonneg v \<longleftrightarrow> (\<exists>x\<ge>0. v = Fin x)"
  by (cases v) simp_all

lemma fin_pos_nonneg: "fin_pos v \<Longrightarrow> fin_nonneg v"
  by (cases v) simp_all

lemma fin_pos_iff: "fin_pos v \<longleftrightarrow> (\<exists>x>0. v = Fin x)"
  by (cases v) simp_all

lemma length_upd_step [simp]: "length (upd_step g act inc c node) = length c"
  by (simp add: upd_step_def)

lemma length_foldl_upd_step [simp]: "length (foldl (upd_step g act inc) c ns) = length c"
  by (induction ns arbitrary: c) simp_all

lemma upd_step_nonneg:
  assumes "list_all fin_nonneg c" and "act node \<longrightarrow> fin_nonneg (inc node)"
    and "nat (receiver g node) < length c"
  shows "list_all fin_nonneg (upd_step g act inc c node)"
proof (cases "act node")
  case False
  then show ?thesis using assms(1) by (simp add: upd_step_def)
next
  case True
  then obtain v where v: "inc node = Fin v" "0 \<le> v"
    using assms(2) by (auto simp: fin_nonneg_iff)
  have "fin_nonneg (c ! nat (receiver g node))"
    using assms(1,3) by (simp add: list_all_length)
  then obtain u where u: "c ! nat (receiver g node) = Fin u" "0 \<le> u"
    by (auto simp: fin_nonneg_iff)
  have "fin_nonneg (fadd (c ! nat (receiver g node)) (inc node))"
    using u v by simp
  then show ?thesis
    using assms(1) True
    by (cases "nat node < length c")
       (auto simp: upd_step_def list_all_length nth_list_update)
qed

lemma foldl_upd_step_untouched:
  "\<forall>x \<in> set ns. act x \<longrightarrow> nat x \<noteq> k \<Longrightarrow> foldl (upd_step g act inc) c ns ! k = c ! k"
  by (induction ns arbitrary: c) (auto simp: upd_step_def)

lemma foldl_upd_step_nonneg:
  "list_all fin_nonneg c \<Longrightarrow> \<forall>x \<in> set ns. act x \<longrightarrow> fin_nonneg (inc x) \<Longrightarrow>
   \<forall>x \<in> set ns. nat (receiver g x) < length c \<Longrightarrow>
   list_all fin_nonneg (foldl (upd_step g act inc) c ns)"
proof (induction ns arbitrary: c)
  case Nil
  then show ?case by simp
next
  case (Cons x xs)
  have "list_all fin_nonneg (upd_step g act inc c x)"
    using Cons.prems by (intro upd_step_nonneg) simp_all
  then show ?case using Cons.prems by (simp add: Cons.IH)
qed

lemma foldl_upd_step_mono:
  assumes "list_all fin_nonneg c"
    and "\<forall>x \<in> set ns. act x \<longrightarrow> fin_nonneg (inc x)"
    and "\<forall>x \<in> set ns. 0 \<le> x \<and> nat x < length c \<and> 0 \<le> receiver g x \<and> nat (receiver g x) < length c"
    and "topological g ns"
    and "node \<in> set ns" and "act node"
  shows "fle (foldl (upd_step g act inc) c ns ! nat (receiver g node))
             (foldl (upd_step g act inc) c ns ! nat node)"
  using assms
proof (induction ns arbitrary: c)
  case Nil
  then show ?case by simp
next
  case (Cons x xs)
  let ?c' = "upd_step g act inc c x"
  have nn': "list_all fin_nonneg ?c'"
    using Cons.prems by (intro upd_step_nonneg) simp_all
  show ?case
  proof (cases "node \<in> set xs")
    case True
    have "fle (foldl (upd_step g act inc) ?c' xs ! nat (receiver g node))
              (foldl (upd_step g act inc) ?c' xs ! nat node)"
      using Cons.prems True nn' by (intro Cons.IH) simp_all
    then show ?thesis by simp
  next
    case False
    then have eq: "node = x" using Cons.prems(5) by simp
    have x: "0 \<le> x" "nat x < length c" "0 \<le> receiver g x" "nat (receiver g x) < length c"
      using Cons.prems(3) by simp_all
    have nx: "x \<notin> set xs" "receiver g x \<notin> set xs" using Cons.prems(4) by simp_all
    have pos: "\<forall>y \<in> set xs. 0 \<le> y" using Cons.prems(3) by simp
    have "\<forall>y \<in> set xs. act y \<longrightarrow> nat y \<noteq> nat x"
      using nx(1) pos x(1) by (metis nat_eq_iff2)
    then have a: "foldl (upd_step g act inc) ?c' xs ! nat x = ?c' ! nat x"
      by (rule foldl_upd_step_untouched)
    have "\<forall>y \<in> set xs. act y \<longrightarrow> nat y \<noteq> nat (receiver g x)"
      using nx(2) pos x(3) by (metis nat_eq_iff2)
    then have b: "foldl (upd_step g act inc) ?c' xs ! nat (receiver g x) = ?c' ! nat (receiver g x)"
      by (rule foldl_upd_step_untouched)
    obtain v where v: "inc x = Fin v" "0 \<le> v"
      using Cons.prems(2,6) eq by (auto simp: fin_nonneg_iff)
    have "fin_nonneg (c ! nat (receiver g x))"
      using Cons.prems(1) x(4) by (simp add: list_all_length)
    then obtain u where u: "c ! nat (receiver g x) = Fin u" "0 \<le> u"
      by (auto simp: fin_nonneg_iff)
    have "fle (?c' ! nat (receiver g x)) (?c' ! nat x)"
      using Cons.prems(6) eq x u v by (simp add: upd_step_def nth_list_update)
    then show ?thesis using a b eq by simp
  qed
qed

lemma mean_nonneg:
  assumes "xs \<noteq> []" and "list_all fin_nonneg xs"
  shows "fin_nonneg (mean xs)"
proof -
  have "fin_nonneg a \<Longrightarrow> list_all fin_nonneg ys \<Longrightarrow> fin_nonneg (foldl fadd a ys)" for a ys
  proof (induction ys arbitrary: a)
    case Nil
    then show ?case by simp
  next
    case (Cons y ys)
    from Cons.prems have "fin_nonneg (fadd a y)" by (auto simp: fin_nonneg_iff)
    then show ?case using Cons by simp
  qed
  then have "fin_nonneg (foldl fadd (Fin 0) xs)" using assms(2) by simp
  then obtain s where "foldl fadd (Fin 0) xs = Fin s" "0 \<le> s" by (auto simp: fin_nonneg_iff)
  then show ?thesis using assms(1) by (simp add: mean_def)
qed

lemma eff_A0_positive: "eff_A0 g self kw = Inr a0 \<Longrightarrow> flt (Fin 0) a0"
  by (auto simp: eff_A0_def ebind_def split: sum.splits if_splits)

lemma integrand_pos:
  assumes "0 < a" and "fin_pos y"
  shows "fin_pos (fpow (fdiv (Fin a) y) (Fin t))"
proof -
  obtain x where x: "y = Fin x" "0 < x" using assms(2) by (auto simp: fin_pos_iff)
  then have "0 < a / x" using assms(1) by simp
  then have "pow_fin (a / x) t = Fin ((a / x) powr t)" by (simp add: pow_fin_def)
  moreover have "0 < (a / x) powr t" using assms(1) x(2) by simp
  ultimately show ?thesis using x assms(1) by simp
qed

lemma spec_uniform_step_upd:
  "spec_uniform_step g a0 theta = upd_step g (\<lambda>_. True) (\<lambda>node. fpow (fdiv a0 (area g node)) theta)"
  by (simp add: fun_eq_iff spec_uniform_step_def upd_step_def)

lemma spec_exact_step_upd:
  "spec_exact_step g f =
     upd_step g (\<lambda>node. link_to_receiver g node \<noteq> BAD_INDEX_VALUE g)
       (\<lambda>node. fmul (fmul (Fin (1 / 2)) (fadd (f node) (f (receiver g node)))) (linkLength g node))"
  by (simp add: fun_eq_iff spec_exact_step_def upd_step_def)

lemma stamp_closed_mono:
  assumes "length (status_at_node g) = length c" and "kn < length c" and "kr < length c"
    and "status_at_node g ! kn \<noteq> CLOSED_BOUNDARY g"
    and "fin_nonneg (c ! kn)" and "fle (c ! kr) (c ! kn)"
  shows "fle (stamp_closed g c ! kr) (stamp_closed g c ! kn)"
proof -
  obtain v where "c ! kn = Fin v" "0 \<le> v" using assms(5) by (auto simp: fin_nonneg_iff)
  then show ?thesis using assms by (simp add: stamp_closed_nth)
qed

lemma fmul_mono:
  assumes "fin_nonneg a" and "fin_nonneg b" and "fle a b" and "fin_nonneg m"
  shows "fle (fmul a m) (fmul b m) \<and> fin_nonneg (fmul b m)"
proof -
  obtain x y z where "a = Fin x" "b = Fin y" "m = Fin z" "0 \<le> x" "0 \<le> y" "0 \<le> z"
    using assms by (auto simp: fin_nonneg_iff)
  then show ?thesis using assms(3) by (simp add: mult_right_mono)
qed

text \<open>
  Where the mean spacing is a number, chi does not decrease upstream. In the arithmetic of
  this theory, in which finite operands give a finite result (no overflow): on a
  well-formed flow network with a finite reference area and concavity, positive finite
  drainage areas at the valid nodes, link lengths that are finite and not negative, and a
  valid-node sequence in topological order, for every valid node that is not a closed
  boundary and whose chi was assigned from its receiver (in exact-spacing mode: whose link
  is not the sentinel), the output chi of the node is at least the output chi of its
  receiver; in uniform-spacing mode provided some valid node has a link to its receiver.
\<close>

lemma chi_monotone_defined_spacing:
  assumes wf: "wf_flow g self"
    and a0: "eff_A0 g self kw = Inr (Fin a)"
    and th: "eff_reftheta self kw = Fin t"
    and areas: "\<forall>m \<in> set (spec_valid_nodes g (eff_min_drainage self kw)). fin_pos (area g m)"
    and lens: "\<forall>m \<in> set (spec_valid_nodes g (eff_min_drainage self kw)).
        link_to_receiver g m \<noteq> BAD_INDEX_VALUE g \<longrightarrow> fin_nonneg (linkLength g m)"
    and topo: "topological g (spec_valid_nodes g (eff_min_drainage self kw))"
    and nd: "node \<in> set (spec_valid_nodes g (eff_min_drainage self kw))"
    and open_nd: "status_at_node g ! nat node \<noteq> CLOSED_BOUNDARY g"
    and assigned: "if eff_use_true_dx self kw
        then link_to_receiver g node \<noteq> BAD_INDEX_VALUE g
        else (\<exists>m \<in> set (spec_valid_nodes g (eff_min_drainage self kw)).
                link_to_receiver g m \<noteq> BAD_INDEX_VALUE g)"
  shows "\<exists>out. calculate_chi g self kw = Inr out \<and>
           fle (chi out ! nat (receiver g node)) (chi out ! nat node)"
proof -
  let ?n = "number_of_nodes g"
  let ?V = "spec_valid_nodes g (eff_min_drainage self kw)"
  let ?z = "replicate ?n (Fin 0)"
  have len: "length (status_at_node g) = ?n" "length (flow_receiver g) = ?n"
    and ord: "\<forall>i \<in> set (upstream_node_order g). 0 \<le> i \<and> i < int ?n"
    and rcv: "\<forall>r \<in> set (flow_receiver g). 0 \<le> r \<and> r < int ?n"
    using wf by (simp_all add: wf_flow_def Let_def)
  have vr: "\<forall>i \<in> set ?V. 0 \<le> i \<and> i < int ?n" using ord by (rule valid_in_range)
  have rng: "\<forall>x \<in> set ?V. 0 \<le> x \<and> nat x < length ?z \<and>
               0 \<le> receiver g x \<and> nat (receiver g x) < length ?z"
  proof
    fix x assume x: "x \<in> set ?V"
    then have x0: "0 \<le> x" "x < int ?n" using vr by auto
    then have "nat x < length (flow_receiver g)" using len by simp
    then have "receiver g x \<in> set (flow_receiver g)" unfolding receiver_def by (rule nth_mem)
    then have "0 \<le> receiver g x" "receiver g x < int ?n" using rcv by auto
    then show "0 \<le> x \<and> nat x < length ?z \<and> 0 \<le> receiver g x \<and> nat (receiver g x) < length ?z"
      using x0 by (simp add: nat_less_iff)
  qed
  have kn: "nat node < ?n" and kr: "nat (receiver g node) < ?n" using rng nd by auto
  have z: "list_all fin_nonneg ?z" by (simp add: list_all_length)
  have apos: "0 < a" using eff_A0_positive[OF a0] by (simp add: flt_def)
  define h where "h = (\<lambda>m. fpow (fdiv (Fin a) (area g m)) (Fin t))"
  have hpos: "\<forall>m \<in> set ?V. fin_pos (h m)"
    unfolding h_def using areas integrand_pos[OF apos] by blast
  show ?thesis
  proof (cases "eff_use_true_dx self kw")
    case False
    let ?step = "upd_step g (\<lambda>_. True) h"
    let ?sum = "foldl ?step ?z ?V"
    have inc: "\<forall>x \<in> set ?V. True \<longrightarrow> fin_nonneg (h x)"
      using hpos by (blast intro: fin_pos_nonneg)
    have nn: "list_all fin_nonneg ?sum"
      using z inc rng by (intro foldl_upd_step_nonneg) simp_all
    have mono: "fle (?sum ! nat (receiver g node)) (?sum ! nat node)"
      using z inc rng topo nd by (intro foldl_upd_step_mono) simp_all
    let ?ls = "map (linkLength g) (filter (\<lambda>m. link_to_receiver g m \<noteq> BAD_INDEX_VALUE g) ?V)"
    have "?ls \<noteq> []" using assigned False by (auto simp: filter_empty_conv)
    moreover have "list_all fin_nonneg ?ls" using lens by (simp add: list_all_iff)
    ultimately have mn: "fin_nonneg (spec_mean_spacing g ?V)"
      unfolding spec_mean_spacing_def by (rule mean_nonneg)
    let ?sc = "map (\<lambda>c. fmul c (spec_mean_spacing g ?V)) ?sum"
    have sce: "spec_chi_uniform g (Fin a) (Fin t) (eff_min_drainage self kw) = ?sc"
      by (simp add: spec_chi_uniform_def Let_def spec_uniform_step_upd h_def)
    have nnk: "fin_nonneg (?sum ! nat node)" "fin_nonneg (?sum ! nat (receiver g node))"
      using nn kn kr by (simp_all add: list_all_length)
    have m2: "fle (?sc ! nat (receiver g node)) (?sc ! nat node) \<and> fin_nonneg (?sc ! nat node)"
      using fmul_mono[OF nnk(2) nnk(1) mono mn] kn kr by simp
    have "fle (stamp_closed g ?sc ! nat (receiver g node)) (stamp_closed g ?sc ! nat node)"
      using len kn kr open_nd m2 by (intro stamp_closed_mono) simp_all
    moreover from uniform_chi_value[OF wf a0 False] obtain out where
      "calculate_chi g self kw = Inr out" "chi out = stamp_closed g ?sc"
      unfolding th sce by blast
    ultimately show ?thesis by auto
  next
    case True
    define f where "f = spec_integrand g (Fin a) (Fin t) ?V"
    let ?act = "\<lambda>m. link_to_receiver g m \<noteq> BAD_INDEX_VALUE g"
    let ?inc = "\<lambda>m. fmul (fmul (Fin (1 / 2)) (fadd (f m) (f (receiver g m)))) (linkLength g m)"
    let ?ex = "foldl (upd_step g ?act ?inc) ?z ?V"
    have fe: "f m = (if m \<in> set ?V then h m else Fin 0)" for m
      by (simp add: f_def h_def spec_integrand_def)
    have fnn: "fin_nonneg (f m)" for m
      unfolding fe using hpos by (auto intro: fin_pos_nonneg)
    have inc: "\<forall>x \<in> set ?V. ?act x \<longrightarrow> fin_nonneg (?inc x)"
    proof (intro ballI impI)
      fix x assume "x \<in> set ?V" and "?act x"
      then obtain l where l: "linkLength g x = Fin l" "0 \<le> l"
        using lens by (auto simp: fin_nonneg_iff)
      obtain p q where "f x = Fin p" "0 \<le> p" "f (receiver g x) = Fin q" "0 \<le> q"
        using fnn[of x] fnn[of "receiver g x"] by (auto simp: fin_nonneg_iff)
      then show "fin_nonneg (?inc x)" using l by simp
    qed
    have nn: "list_all fin_nonneg ?ex"
      using z inc rng by (intro foldl_upd_step_nonneg) simp_all
    have mono: "fle (?ex ! nat (receiver g node)) (?ex ! nat node)"
      using z inc rng topo nd assigned True by (intro foldl_upd_step_mono) simp_all
    have exe: "spec_chi_exact g (Fin a) (Fin t) (eff_min_drainage self kw) = ?ex"
      by (simp add: spec_chi_exact_def Let_def spec_exact_step_upd f_def)
    have nnk: "fin_nonneg (?ex ! nat node)" using nn kn by (simp add: list_all_length)
    have "fle (stamp_closed g ?ex ! nat (receiver g node)) (stamp_closed g ?ex ! nat node)"
      using len kn kr open_nd nnk mono by (intro stamp_closed_mono) simp_all
    moreover from exact_chi_value[OF wf a0 True] obtain out where
      "calculate_chi g self kw = Inr out" "chi out = stamp_closed g ?ex"
      unfolding th exe by blast
    ultimately show ?thesis by auto
  qed
qed

lemma chi_monotone_defined_spacing_sample:
  "\<exists>out. calculate_chi channel_grid channel_finder no_kwds = Inr out \<and>
      fle (chi out ! nat (receiver channel_grid 2)) (chi out ! nat 2)"
proof -
  let ?V = "spec_valid_nodes channel_grid (eff_min_drainage channel_finder no_kwds)"
  have V: "?V = [0, 1, 2]"
    by (simp add: spec_valid_nodes_def eff_min_drainage_def channel_finder_def no_kwds_def
        channel_grid_def area_def)
  have h1: "wf_flow channel_grid channel_finder" by (rule wf_channel)
  have h2: "eff_A0 channel_grid channel_finder no_kwds = Inr (Fin 1)"
    by (simp add: eff_A0_def channel_finder_def no_kwds_def ebind_def flt_def)
  have h3: "eff_reftheta channel_finder no_kwds = Fin 1"
    by (simp add: eff_reftheta_def channel_finder_def no_kwds_def)
  have h4: "\<forall>m \<in> set ?V. fin_pos (area channel_grid m)"
    unfolding V by (simp add: area_def channel_grid_def)
  have h5: "\<forall>m \<in> set ?V. link_to_receiver channel_grid m \<noteq> BAD_INDEX_VALUE channel_grid
              \<longrightarrow> fin_nonneg (linkLength channel_grid m)"
    unfolding V by (simp add: linkLength_def link_to_receiver_def channel_grid_def)
  have h6: "topological channel_grid ?V"
    unfolding V by (simp add: receiver_def channel_grid_def)
  have h7: "2 \<in> set ?V" unfolding V by simp
  have h8: "status_at_node channel_grid ! nat 2 \<noteq> CLOSED_BOUNDARY channel_grid"
    by (simp add: channel_grid_def)
  have h9: "if eff_use_true_dx channel_finder no_kwds
        then link_to_receiver channel_grid 2 \<noteq> BAD_INDEX_VALUE channel_grid
        else (\<exists>m \<in> set ?V. link_to_receiver channel_grid m \<noteq> BAD_INDEX_VALUE channel_grid)"
    unfolding V
    by (simp add: eff_use_true_dx_def channel_finder_def no_kwds_def link_to_receiver_def
        channel_grid_def)
  show ?thesis
    by (rule chi_monotone_defined_spacing[OF h1 h2 h3 h4 h5 h6 h7 h8 h9])
qed

text \<open>
  Claim C7 says that after \<^verbatim>\<open>calculate_chi\<close> every valid node whose chi was assigned from
  its receiver has a chi at least that of its receiver. In uniform-spacing mode the code
  breaks this when no valid node has a link to its receiver. On the sample grid with
  \<^verbatim>\<open>min_drainage_area = 3\<close> the outlet, node 0, is the only valid node; the reference area
  is 1 and the drainage area of the node is 3, both positive. The loop assigns
  \<open>chi[0] = chi[receiver(0)] + (A0/area(0))^\<theta>\<close> with \<open>receiver(0) = 0\<close>, the mean
  spacing is the mean of an empty array, \<^verbatim>\<open>nan\<close>, and \<^verbatim>\<open>chi_array *= mean_dx\<close> leaves
  \<^verbatim>\<open>nan\<close> at the node: \<open>chi[0] >= chi[receiver(0)]\<close> is false of the output. It is the
  defect seen above in the calls that leave no link to average; where the mean spacing is
  a number the order holds, by \<open>chi_monotone_defined_spacing\<close>.
\<close>

theorem chi_monotone_nan_at_outlet:
  "\<exists>out. calculate_chi channel_grid channel_finder
            (no_kwds\<lparr> kw_min_drainage_area := Some (Fin 3) \<rparr>) = Inr out \<and>
      chi out = [NaN, NaN, NaN, Fin 0] \<and>
      spec_valid_nodes channel_grid (Fin 3) = [0] \<and>
      receiver channel_grid 0 = 0 \<and>
      eff_A0 channel_grid channel_finder (no_kwds\<lparr> kw_min_drainage_area := Some (Fin 3) \<rparr>)
        = Inr (Fin 1) \<and>
      area channel_grid 0 = Fin 3 \<and>
      \<not> fle (chi out ! nat (receiver channel_grid 0)) (chi out ! nat 0)"
proof -
  let ?kw = "no_kwds\<lparr> kw_min_drainage_area := Some (Fin 3) \<rparr>"
  let ?out = "channel_finder\<lparr> chi := [NaN, NaN, NaN, Fin 0],
                              hillslope_mask := [False, True, True, True] \<rparr>"
  have "calculate_chi channel_grid channel_finder ?kw = Inr ?out"
    by (simp add: chi_eval)
  moreover have "spec_valid_nodes channel_grid (Fin 3) = [0]"
    by (simp add: spec_valid_nodes_def channel_grid_def area_def)
  moreover have "receiver channel_grid 0 = 0" "area channel_grid 0 = Fin 3"
    by (simp_all add: receiver_def area_def channel_grid_def)
  moreover have "eff_A0 channel_grid channel_finder ?kw = Inr (Fin 1)"
    by (simp add: eff_A0_def channel_finder_def no_kwds_def ebind_def flt_def)
  ultimately show ?thesis by simp
qed

section \<open>PitFiller: elevations are only raised\<close>

lemma py_index_eq: "py_index n j = (if in_range n j then Inr (ix n j) else Inl IndexError)"
  by (auto simp: py_index_def in_range_def ix_def)

lemma ix_less: "in_range n j \<Longrightarrow> ix n j < n"
  by (auto simp: in_range_def ix_def)

lemma py_get_eq: "py_get xs j = (if in_range (length xs) j then Inr (xs ! ix (length xs) j) else Inl IndexError)"
  by (simp add: py_get_def py_index_eq ebind_def)

lemma py_set_eq:
  "py_set xs j v = (if in_range (length xs) j then Inr (xs[ix (length xs) j := v]) else Inl IndexError)"
  by (simp add: py_set_def py_index_eq ebind_def)

lemma visit_eq:
  assumes "length c = n" and "length d = n"
  shows "visit node nb (c, d, r, q) =
    (if nb = - 1 then Inr (c, d, r, q)
     else if \<not> in_range n nb then Inl (IndexError, (c, d, r, q))
     else if c ! ix n nb then Inr (c, d, r, q)
     else if \<not> in_range n node then Inl (IndexError, (c[ix n nb := True], d, r, q))
     else if d ! ix n nb \<le> d ! ix n node
       then Inr (c[ix n nb := True], d[ix n nb := d ! ix n node], r @ [nb], q)
       else Inr (c[ix n nb := True], d, r, priority_put (d ! ix n nb, nb) q))"
  using assms by (simp add: py_get_eq py_set_eq)

lemma raised_from_refl: "raised_from d d"
  by (simp add: raised_from_def)

lemma raised_from_update:
  assumes "raised_from d0 d" and "k < length d" and "d ! k \<le> z"
  shows "raised_from d0 (d[k := z])"
  unfolding raised_from_def
proof (intro conjI allI impI)
  show "length (d[k := z]) = length d0" using assms(1) by (simp add: raised_from_def)
  fix i assume i: "i < length d0"
  then have "d0 ! i \<le> d ! i" using assms(1) by (simp add: raised_from_def)
  then show "d0 ! i \<le> d[k := z] ! i"
    using assms i by (cases "i = k") (auto simp: raised_from_def)
qed

lemma visit_raised:
  assumes "visit node nb (c, d, r, q) = Inr (c', d', r', q')" and "raised_from d0 d"
  shows "raised_from d0 d'"
  using assms
  by (auto simp: py_get_eq py_set_eq ix_less split: if_splits bool.splits
      intro!: raised_from_update)

lemma visit_neighbors_raised:
  "visit_neighbors node row s = Inr s' \<Longrightarrow> raised_from d0 (dem_of s) \<Longrightarrow> raised_from d0 (dem_of s')"
proof (induction row arbitrary: s)
  case Nil
  then show ?case by simp
next
  case (Cons nb row)
  then obtain s1 where s1: "visit node nb s = Inr s1" "visit_neighbors node row s1 = Inr s'"
    by (auto split: sum.splits)
  obtain c d r q where s: "s = (c, d, r, q)" by (cases s) auto
  obtain c1 d1 r1 q1 where s1': "s1 = (c1, d1, r1, q1)" by (cases s1) auto
  have "raised_from d0 d1"
    using visit_raised[of node nb c d r q c1 d1 r1 q1 d0] s1(1) Cons.prems(2)
    by (simp add: s s1' dem_of_def)
  then show ?case using Cons.IH[OF s1(2)] by (simp add: s1' dem_of_def)
qed

lemma pop_node_dem: "pop_node s = Some (node, s1) \<Longrightarrow> dem_of s1 = dem_of s \<and> closed_of s1 = closed_of s"
  by (cases s rule: pop_node.cases) (auto simp: dem_of_def closed_of_def)

lemma pit_loop_invariant:
  assumes "pit_loop nbrs s = Inr s'" and "I s"
    and "\<And>s node s1 s2. I s \<Longrightarrow> pop_node s = Some (node, s1) \<Longrightarrow>
                 process_node nbrs node s1 = Inr s2 \<Longrightarrow> I s2"
  shows "I s' \<and> pop_node s' = None"
  using assms
proof (induction nbrs s rule: pit_loop.induct)
  case (1 nbrs s)
  show ?case
  proof (cases "pop_node s")
    case None
    then have "s' = s" using "1.prems"(1) by (simp add: pit_loop.simps)
    then show ?thesis using None "1.prems"(2) by simp
  next
    case (Some x)
    obtain node s1 where x: "x = (node, s1)" by (cases x) auto
    from "1.prems"(1) Some x obtain s2 where
      s2: "process_node nbrs node s1 = Inr s2" "pit_loop nbrs s2 = Inr s'"
      by (subst (asm) pit_loop.simps) (auto split: sum.splits)
    have "I s2"
      by (rule "1.prems"(3)[where s = s and node = node and ?s1.0 = s1])
         (use "1.prems"(2) Some x s2(1) in simp_all)
    then show ?thesis
      using "1.IH"[OF Some x[symmetric] s2(1) s2(2)] "1.prems"(3) by blast
  qed
qed

lemma seed_boundary_dem: "seed_boundary seeds s = Inr s' \<Longrightarrow> dem_of s' = dem_of s"
proof (induction seeds arbitrary: s)
  case Nil
  then show ?case by simp
next
  case (Cons i seeds)
  obtain c d r q where s: "s = (c, d, r, q)" by (cases s) auto
  from Cons.prems s obtain z c1 where
    "seed_boundary seeds (c1, d, r, priority_put (z, i) q) = Inr s'"
    by (auto split: sum.splits)
  from Cons.IH[OF this] show ?case by (simp add: s dem_of_def)
qed

lemma flood_raised:
  assumes "flood self d0 = Inr s"
  shows "raised_from d0 (dem_of s)"
proof -
  from assms obtain s0 where
    s0: "seed_boundary (open_boundary self) (replicate (n_nodes self) False, d0, [], []) = Inr s0"
      "pit_loop (neighbors self) s0 = Inr s"
    by (auto simp: flood_def split: sum.splits)
  have "raised_from d0 (dem_of s0)"
    using seed_boundary_dem[OF s0(1)] by (simp add: dem_of_def raised_from_refl)
  with s0(2) have "raised_from d0 (dem_of s) \<and> pop_node s = None"
  proof (rule pit_loop_invariant)
    fix t node t1 t2
    assume "raised_from d0 (dem_of t)" "pop_node t = Some (node, t1)"
      "process_node (neighbors self) node t1 = Inr t2"
    then show "raised_from d0 (dem_of t2)"
      using pop_node_dem[of t node t1]
      by (auto simp: process_node_def split: sum.splits dest: visit_neighbors_raised)
  qed
  then show ?thesis by simp
qed

lemmas fill_eval =
  pit_fill_def flood_def dem_of_def process_node_def py_get_def py_set_def py_index_def
  ebind_def tuple_le_def pit_loop.simps eval_nat_numeral

lemma init_pit_filler: "init_PitFiller channel_grid pit_store = Inr (pit_filler, pit_store_copied)"
  by (simp add: init_PitFiller_def pit_store_def channel_grid_def concatenate_axis1_def ebind_def
      np_where_def upt_rec pit_filler_def pit_store_copied_def)

lemma pit_fill_sample: "pit_fill pit_filler pit_store_copied = Inr pit_store_filled"
  by (simp add: fill_eval pit_filler_def pit_store_copied_def pit_store_filled_def)

text \<open>
  Claim C3, as amended. Whatever the elevations, the neighbor lists and the boundary
  statuses of the nodes, when \<^verbatim>\<open>pit_fill\<close> returns, the grid's elevation field is the
  filler's array \<^verbatim>\<open>self._dem\<close>, it has the length it had, and the elevation of every node
  is at least the elevation that the filler's array, the copy of the surface made at
  construction, held for the node before the call. The comparison is with that array, not
  with what the grid's elevation field held before the call.
\<close>

theorem pit_fill_only_raises:
  assumes "pit_fill self st = Inr out"
  shows "elevation_field out = Some (dem_ref self) \<and>
         length (heap out (dem_ref self)) = length (heap st (dem_ref self)) \<and>
         (\<forall>n < length (heap st (dem_ref self)).
            heap st (dem_ref self) ! n \<le> heap out (dem_ref self) ! n)"
proof -
  from assms obtain s where s: "flood self (heap st (dem_ref self)) = Inr s"
    and out: "out = st\<lparr> heap := (heap st)(dem_ref self := dem_of s),
                         elevation_field := Some (dem_ref self) \<rparr>"
    by (auto simp: pit_fill_def split: sum.splits)
  have "raised_from (heap st (dem_ref self)) (dem_of s)" using s by (rule flood_raised)
  then show ?thesis by (simp add: out raised_from_def)
qed

theorem pit_fill_only_raises_witness:
  "pit_fill pit_filler pit_store_copied = Inr pit_store_filled \<and>
   elevation_field pit_store_filled = Some (dem_ref pit_filler) \<and>
   heap pit_store_copied (dem_ref pit_filler) ! 2 = 1 \<and>
   heap pit_store_copied (dem_ref pit_filler) ! 2 \<le> heap pit_store_filled (dem_ref pit_filler) ! 2"
proof -
  have h: "pit_fill pit_filler pit_store_copied = Inr pit_store_filled" by (rule pit_fill_sample)
  have l: "heap pit_store_copied (dem_ref pit_filler) = [0, 3, 1, 2]"
    by (simp add: pit_store_copied_def pit_filler_def)
  then have n: "2 < length (heap pit_store_copied (dem_ref pit_filler))" by simp
  from pit_fill_only_raises[OF h] have a: "elevation_field pit_store_filled = Some (dem_ref pit_filler)"
    and b: "\<forall>n < length (heap pit_store_copied (dem_ref pit_filler)).
           heap pit_store_copied (dem_ref pit_filler) ! n \<le> heap pit_store_filled (dem_ref pit_filler) ! n"
    by blast+
  from b n have "heap pit_store_copied (dem_ref pit_filler) ! 2
                   \<le> heap pit_store_filled (dem_ref pit_filler) ! 2"
    by blast
  moreover have "heap pit_store_copied (dem_ref pit_filler) ! 2 = 1" by (simp add: l)
  ultimately show ?thesis using h a by blast
qed

text \<open>
  Claim C3 as stated, for the elevation of the grid before and after the call, fails when
  the elevation field was written between the construction of the filler and the call.
  Construct the filler on the sample grid with elevations 0, 3, 1, 2, then set the
  elevation of node 0 to 7 in the grid's field, then call \<^verbatim>\<open>pit_fill\<close>: the field holds
  7, 3, 1, 2 before the call and 0, 3, 3, 3 after it, so node 0 is lowered from 7 to 0.
\<close>

theorem pit_fill_lowers_edited_field_counterexample:
  "init_PitFiller channel_grid pit_store = Inr (pit_filler, pit_store_copied) \<and>
   (\<exists>st2 out. apply_edits [SetValue 0 7] pit_store_copied = Inr st2 \<and>
      map_option (heap st2) (elevation_field st2) = Some [7, 3, 1, 2] \<and>
      pit_fill pit_filler st2 = Inr out \<and>
      map_option (heap out) (elevation_field out) = Some [0, 3, 3, 3] \<and>
      the (map_option (heap out) (elevation_field out)) ! 0
        < the (map_option (heap st2) (elevation_field st2)) ! 0)"
proof -
  let ?st2 = "\<lparr> heap = (\<lambda>_. [])(0 := [7, 3, 1, 2], 1 := [0, 3, 1, 2]),
               next_free = 2, elevation_field = Some 0 \<rparr>"
  let ?out = "\<lparr> heap = (\<lambda>_. [])(0 := [7, 3, 1, 2], 1 := [0, 3, 3, 3]),
               next_free = 2, elevation_field = Some 1 \<rparr>"
  have e: "apply_edits [SetValue 0 7] pit_store_copied = Inr ?st2"
    by (simp add: pit_store_copied_def ebind_def py_set_def py_index_def fun_upd_twist)
  have f: "pit_fill pit_filler ?st2 = Inr ?out"
    by (simp add: fill_eval pit_filler_def)
  have "apply_edits [SetValue 0 7] pit_store_copied = Inr ?st2 \<and>
      map_option (heap ?st2) (elevation_field ?st2) = Some [7, 3, 1, 2] \<and>
      pit_fill pit_filler ?st2 = Inr ?out \<and>
      map_option (heap ?out) (elevation_field ?out) = Some [0, 3, 3, 3] \<and>
      the (map_option (heap ?out) (elevation_field ?out)) ! 0
        < the (map_option (heap ?st2) (elevation_field ?st2)) ! 0"
    using e f by simp
  then show ?thesis using init_pit_filler by blast
qed

section \<open>PitFiller: the fill works on the copy made at construction\<close>

lemma apply_edit_frame:
  assumes "apply_edit e st = Inr st'" and "wf_store st" and "r < next_free st"
    and "elevation_field st \<noteq> Some r"
  shows "heap st' r = heap st r \<and> wf_store st' \<and> r < next_free st' \<and> elevation_field st' \<noteq> Some r"
  using assms
  by (cases e) (auto simp: wf_store_def ebind_def split: option.splits sum.splits)

lemma apply_edits_frame:
  "apply_edits es st = Inr st' \<Longrightarrow> wf_store st \<Longrightarrow> r < next_free st \<Longrightarrow>
   elevation_field st \<noteq> Some r \<Longrightarrow> heap st' r = heap st r"
proof (induction es arbitrary: st)
  case Nil
  then show ?case by simp
next
  case (Cons e es)
  then obtain st1 where st1: "apply_edit e st = Inr st1" "apply_edits es st1 = Inr st'"
    by (auto simp: ebind_def split: sum.splits)
  from apply_edit_frame[OF st1(1) Cons.prems(2,3,4)] Cons.IH[OF st1(2)]
  show ?case by simp
qed

text \<open>
  Claim C10. Construct a \<^verbatim>\<open>PitFiller\<close> on a grid whose elevation field is the array \<open>a\<close>,
  then edit the elevation field in any way, then call \<^verbatim>\<open>pit_fill\<close>: the call does what the
  flood of the elevations of construction time does, and when it returns the grid's
  elevation field holds the fill of those elevations. The edits are lost.
\<close>

theorem pit_fill_uses_snapshot:
  assumes "wf_store st" and "elevation_field st = Some a"
    and "init_PitFiller g st = Inr (self, st1)"
    and "apply_edits es st1 = Inr st2"
  shows "case flood self (heap st a) of
           Inr s \<Rightarrow> (\<exists>out. pit_fill self st2 = Inr out \<and>
                      elevation_field out = Some (dem_ref self) \<and>
                      heap out (dem_ref self) = dem_of s)
         | Inl (e, s) \<Rightarrow> (\<exists>out. pit_fill self st2 = Inl (e, out))"
proof -
  from assms(2,3) have r: "dem_ref self = next_free st"
    and st1: "st1 = st\<lparr> heap := (heap st)(next_free st := heap st a),
                        next_free := Suc (next_free st) \<rparr>"
    by (auto simp: init_PitFiller_def ebind_def split: sum.splits)
  have a: "a < next_free st" using assms(1,2) by (simp add: wf_store_def)
  have "heap st2 (dem_ref self) = heap st1 (dem_ref self)"
    using assms(4)
  proof (rule apply_edits_frame)
    show "wf_store st1" using a assms(2) by (simp add: st1 wf_store_def)
    show "dem_ref self < next_free st1" by (simp add: r st1)
    show "elevation_field st1 \<noteq> Some (dem_ref self)" using a assms(2) by (simp add: r st1)
  qed
  then have "heap st2 (dem_ref self) = heap st a" by (simp add: r st1)
  then show ?thesis by (auto simp: pit_fill_def split: sum.splits)
qed

theorem pit_fill_uses_snapshot_witness:
  "wf_store pit_store \<and> elevation_field pit_store = Some 0 \<and>
   init_PitFiller channel_grid pit_store = Inr (pit_filler, pit_store_copied) \<and>
   (\<exists>st2. apply_edits [SetValue 2 10, Rebind [9, 9, 9, 9], SetValue 0 7] pit_store_copied = Inr st2 \<and>
      map_option (heap st2) (elevation_field st2) = Some [7, 9, 9, 9] \<and>
      (\<exists>out. pit_fill pit_filler st2 = Inr out \<and>
         map_option (heap out) (elevation_field out) = Some [0, 3, 3, 3]))"
proof -
  let ?st2 = "\<lparr> heap = (\<lambda>_. [])(0 := [0, 3, 10, 2], 1 := [0, 3, 1, 2], 2 := [7, 9, 9, 9]),
               next_free = 3, elevation_field = Some 2 \<rparr>"
  have h1: "wf_store pit_store" by (simp add: wf_store_def pit_store_def)
  have h2: "elevation_field pit_store = Some 0" by (simp add: pit_store_def)
  have h3: "init_PitFiller channel_grid pit_store = Inr (pit_filler, pit_store_copied)"
    by (rule init_pit_filler)
  have h4: "apply_edits [SetValue 2 10, Rebind [9, 9, 9, 9], SetValue 0 7] pit_store_copied = Inr ?st2"
    by (simp add: pit_store_copied_def ebind_def py_set_def py_index_def fun_upd_twist)
  have f: "flood pit_filler (heap pit_store 0) =
             Inr ([True, True, True, True], [0, 3, 3, 3], [], [])"
    by (simp add: fill_eval pit_filler_def pit_store_def)
  from pit_fill_uses_snapshot[OF h1 h2 h3 h4] obtain out where
    "pit_fill pit_filler ?st2 = Inr out" "elevation_field out = Some (dem_ref pit_filler)"
    "heap out (dem_ref pit_filler) = [0, 3, 3, 3]"
    unfolding f by (auto simp: dem_of_def)
  then show ?thesis using h1 h2 h3 h4 by simp
qed

section \<open>PitFiller: every visited node drains to the open boundary\<close>

lemma visit_InrE:
  assumes "visit node nb (c, d, r, q) = Inr (c', d', r', q')" and "length c = n" and "length d = n"
  obtains
    (skip) "c' = c" "d' = d" "r' = r" "q' = q" "nb = - 1 \<or> in_range n nb \<and> c ! ix n nb"
  | (level) "nb \<noteq> - 1" "in_range n nb" "\<not> c ! ix n nb" "in_range n node"
      "d ! ix n nb \<le> d ! ix n node" "c' = c[ix n nb := True]"
      "d' = d[ix n nb := d ! ix n node]" "r' = r @ [nb]" "q' = q"
  | (higher) "nb \<noteq> - 1" "in_range n nb" "\<not> c ! ix n nb" "in_range n node"
      "d ! ix n node < d ! ix n nb" "c' = c[ix n nb := True]"
      "d' = d" "r' = r" "q' = priority_put (d ! ix n nb, nb) q"
  using assms(1) unfolding visit_eq[OF assms(2,3)]
  by (auto split: if_splits)

lemma set_priority_put [simp]: "set (priority_put x q) = insert x (set q)"
  by (induction q) auto

lemma visit_neighbors_invariant:
  assumes "visit_neighbors node row s = Inr s'" and "J s"
    and "\<And>t nb t'. J t \<Longrightarrow> nb \<in> set row \<Longrightarrow> visit node nb t = Inr t' \<Longrightarrow> J t'"
  shows "J s'"
  using assms
proof (induction row arbitrary: s)
  case Nil
  then show ?case by simp
next
  case (Cons nb row)
  from Cons.prems(1) obtain s1 where
    s1: "visit node nb s = Inr s1" "visit_neighbors node row s1 = Inr s'"
    by (auto split: sum.splits)
  have "J s1" by (rule Cons.prems(3)[OF Cons.prems(2) _ s1(1)]) simp
  moreover have "J t'" if "J t" "nb' \<in> set row" "visit node nb' t = Inr t'" for t nb' t'
    using Cons.prems(3)[OF that(1) _ that(3)] that(2) by simp
  ultimately show ?case using Cons.IH[OF s1(2)] by blast
qed

lemma pop_node_basic:
  assumes "inv_basic n s" and "pop_node s = Some (node, s1)"
  shows "in_visit n node s1" and "queued s = insert node (queued s1)"
    and "closed_of s1 = closed_of s" and "dem_of s1 = dem_of s"
  using assms
  by (cases s rule: pop_node.cases;
      auto simp: inv_basic_def in_visit_def queued_def closed_of_def dem_of_def)+

lemma visit_basic:
  assumes "in_visit n node s" and "visit node nb s = Inr s'"
  shows "in_visit n node s'"
proof -
  obtain c d r q where s: "s = (c, d, r, q)" by (cases s) auto
  obtain c' d' r' q' where s': "s' = (c', d', r', q')" by (cases s') auto
  have len: "length c = n" "length d = n" using assms(1) by (simp_all add: s in_visit_def inv_basic_def)
  from assms(2)[unfolded s s'] len show ?thesis
  proof (cases rule: visit_InrE)
    case skip
    then show ?thesis using assms(1) by (simp add: s s')
  next
    case level
    then show ?thesis
      using assms(1) len
      by (auto simp: s s' in_visit_def inv_basic_def queued_def closed_of_def ix_less nth_list_update)
  next
    case higher
    then show ?thesis
      using assms(1) len
      by (auto simp: s s' in_visit_def inv_basic_def queued_def closed_of_def ix_less nth_list_update)
  qed
qed

lemma process_node_basic:
  assumes "inv_basic n s" and "pop_node s = Some (node, s1)"
    and "process_node nbrs node s1 = Inr s2"
  shows "inv_basic n s2"
proof -
  from assms(3) obtain row where row: "visit_neighbors node row s1 = Inr s2"
    by (auto simp: process_node_def split: sum.splits)
  have "in_visit n node s1" using assms(1,2) by (rule pop_node_basic)
  with row have "in_visit n node s2"
    by (rule visit_neighbors_invariant) (rule visit_basic)
  then show ?thesis by (simp add: in_visit_def)
qed

lemma drains_closed: "drains nbrs n seeds c d v \<Longrightarrow> v < length c \<and> c ! v"
  by (induction rule: drains.induct) simp_all

lemma drains_stable:
  assumes "drains nbrs n seeds c d v" and "length c' = length c"
    and "\<forall>k < length c. c ! k \<longrightarrow> c' ! k \<and> d' ! k = d ! k"
  shows "drains nbrs n seeds c' d' v"
  using assms
proof (induction rule: drains.induct)
  case (drains_seed k)
  then show ?case by (simp add: drains.drains_seed)
next
  case (drains_step p v)
  have p: "p < length c \<and> c ! p" using drains_step.hyps(1) by (rule drains_closed)
  have "d' ! p \<le> d' ! v" using drains_step.hyps p drains_step.prems by simp
  moreover have "drains nbrs n seeds c' d' p" using drains_step.IH drains_step.prems by simp
  moreover have "v < length c'" "c' ! v"
    using drains_step.hyps(3,4) drains_step.prems by simp_all
  ultimately show ?case
    using drains_step.hyps(2) by (rule_tac p = p in drains.drains_step)
qed

lemma visit_drains:
  assumes "in_visit n node s" and "inv_drains nbrs n seeds s" and "length nbrs = n"
    and "nb \<in> set (nbrs ! ix n node)" and "visit node nb s = Inr s'"
  shows "inv_drains nbrs n seeds s'"
proof -
  obtain c d r q where s: "s = (c, d, r, q)" by (cases s) auto
  obtain c' d' r' q' where s': "s' = (c', d', r', q')" by (cases s') auto
  let ?m = "ix n node" and ?k = "ix n nb"
  have len: "length c = n" "length d = n"
    and m: "in_range n node" "c ! ?m" "?m < n"
    using assms(1) by (simp_all add: s in_visit_def inv_basic_def closed_of_def ix_less)
  have old: "\<forall>k < n. c ! k \<longrightarrow> drains nbrs n seeds c d k"
    using assms(2) by (simp add: s inv_drains_def)
  have fresh: "\<forall>k < n. c' ! k \<longrightarrow> drains nbrs n seeds c' d' k"
    if nb: "nb \<noteq> - 1" "in_range n nb" "\<not> c ! ?k" and c': "c' = c[?k := True]"
      and d': "d' = d \<and> d ! ?m \<le> d ! ?k \<or> d' = d[?k := d ! ?m]"
  proof (intro allI impI)
    fix k assume k: "k < n" "c' ! k"
    have kn: "?k < n" using nb(2) by (rule ix_less)
    have mk: "?m \<noteq> ?k" using m(2) nb(3) by auto
    have agree: "\<forall>i < length c. c ! i \<longrightarrow> c' ! i \<and> d' ! i = d ! i"
      using c' d' nb(3) len kn by (auto simp: nth_list_update)
    show "drains nbrs n seeds c' d' k"
    proof (cases "k = ?k")
      case False
      then have "c ! k" using k c' len kn by (simp add: nth_list_update)
      then have "drains nbrs n seeds c d k" using old k by simp
      then show ?thesis using agree c' by (rule_tac c = c and d = d in drains_stable) simp_all
    next
      case True
      have "drains nbrs n seeds c d ?m" using old m by simp
      then have dm: "drains nbrs n seeds c' d' ?m"
        using agree c' by (rule_tac c = c and d = d in drains_stable) simp_all
      have li: "listed nbrs n ?m ?k"
        unfolding listed_def using assms(3,4) m(3) nb by auto
      have dle: "d' ! ?m \<le> d' ! ?k" using d' mk len kn m(3) by (auto simp: nth_list_update)
      have "c' ! ?k" "?k < length c'" using kn c' len by simp_all
      with dm li \<open>d' ! ?m \<le> d' ! ?k\<close> show ?thesis
        unfolding True by (rule_tac p = "?m" in drains_step)
    qed
  qed
  from assms(5)[unfolded s s'] len show ?thesis
  proof (cases rule: visit_InrE)
    case skip
    then show ?thesis using assms(2) by (simp add: s s')
  next
    case level
    then show ?thesis using fresh by (simp add: s' inv_drains_def)
  next
    case higher
    then show ?thesis using fresh by (simp add: s' inv_drains_def)
  qed
qed

lemma process_node_drains:
  assumes "inv_basic n s \<and> inv_drains nbrs n seeds s" and "length nbrs = n"
    and "pop_node s = Some (node, s1)" and "process_node nbrs node s1 = Inr s2"
  shows "inv_basic n s2 \<and> inv_drains nbrs n seeds s2"
proof -
  have v1: "in_visit n node s1" using assms(1,3) by (auto intro: pop_node_basic)
  then have nd: "in_range n node" by (simp add: in_visit_def)
  have d1: "inv_drains nbrs n seeds s1"
    using assms(1,3) by (cases s rule: pop_node.cases) (auto simp: inv_drains_def)
  have vn: "visit_neighbors node (nbrs ! ix n node) s1 = Inr s2"
    using assms(2,4) nd by (simp add: process_node_def py_get_eq)
  have "in_visit n node s2 \<and> inv_drains nbrs n seeds s2"
  proof (rule visit_neighbors_invariant[OF vn,
        where J = "\<lambda>t. in_visit n node t \<and> inv_drains nbrs n seeds t"])
    show "in_visit n node s1 \<and> inv_drains nbrs n seeds s1" using v1 d1 ..
  next
    fix t nb t'
    assume t: "in_visit n node t \<and> inv_drains nbrs n seeds t"
      and nb: "nb \<in> set (nbrs ! ix n node)" and v: "visit node nb t = Inr t'"
    have "in_visit n node t'" using t v by (blast intro: visit_basic)
    moreover have "inv_drains nbrs n seeds t'"
      using t assms(2) nb v by (blast intro: visit_drains)
    ultimately show "in_visit n node t' \<and> inv_drains nbrs n seeds t'" ..
  qed
  then show ?thesis by (simp add: in_visit_def)
qed

lemma seed_boundary_result:
  assumes "seed_boundary seeds (c, d, r, q) = Inr (c', d', r', q')" and "length c = n"
    and "length d = n"
  shows "d' = d \<and> r' = r \<and> length c' = n \<and> (\<forall>i \<in> set seeds. in_range n i) \<and>
         (\<forall>k < n. c' ! k \<longleftrightarrow> c ! k \<or> is_seed n seeds k) \<and>
         set q' = set q \<union> (\<lambda>i. (d ! ix n i, i)) ` set seeds"
  using assms
proof (induction seeds arbitrary: c q)
  case Nil
  then show ?case by (simp add: is_seed_def)
next
  case (Cons i seeds)
  from Cons.prems have i: "in_range n i"
    and rest: "seed_boundary seeds (c[ix n i := True], d, r, priority_put (d ! ix n i, i) q)
                 = Inr (c', d', r', q')"
    by (auto simp: py_get_eq py_set_eq split: if_splits)
  have "length (c[ix n i := True]) = n" using Cons.prems(2) by simp
  from Cons.IH[OF rest this Cons.prems(3)]
  have ih: "d' = d" "r' = r" "length c' = n" "\<forall>i \<in> set seeds. in_range n i"
    "\<forall>k < n. c' ! k \<longleftrightarrow> c[ix n i := True] ! k \<or> is_seed n seeds k"
    "set q' = set (priority_put (d ! ix n i, i) q) \<union> (\<lambda>i. (d ! ix n i, i)) ` set seeds"
    by simp_all
  have "\<forall>k < n. c' ! k \<longleftrightarrow> c ! k \<or> is_seed n (i # seeds) k"
    using ih(5) i Cons.prems(2) ix_less[OF i] by (auto simp: is_seed_def nth_list_update)
  then show ?case using ih i by auto
qed

lemma flood_drains:
  assumes "flood self d0 = Inr s" and "length (neighbors self) = n_nodes self"
    and "length d0 = n_nodes self"
  shows "inv_basic (n_nodes self) s \<and>
         inv_drains (neighbors self) (n_nodes self) (open_boundary self) s"
proof -
  let ?n = "n_nodes self" and ?seeds = "open_boundary self"
  from assms(1) obtain s0 where
    s0: "seed_boundary ?seeds (replicate ?n False, d0, [], []) = Inr s0"
      "pit_loop (neighbors self) s0 = Inr s"
    by (auto simp: flood_def split: sum.splits)
  obtain c d r q where s0': "s0 = (c, d, r, q)" by (cases s0) auto
  from seed_boundary_result[OF s0(1)[unfolded s0'], of ?n] assms(3)
  have res: "d = d0" "r = []" "length c = ?n" "\<forall>i \<in> set ?seeds. in_range ?n i"
    "\<forall>k < ?n. c ! k \<longleftrightarrow> is_seed ?n ?seeds k"
    "set q = (\<lambda>i. (d0 ! ix ?n i, i)) ` set ?seeds"
    by simp_all
  have b: "inv_basic ?n s0"
    using res assms(3)
    by (auto simp: s0' inv_basic_def queued_def is_seed_def ix_less)
  have "inv_drains (neighbors self) ?n ?seeds s0"
    using res by (auto simp: s0' inv_drains_def intro: drains_seed)
  with b have "inv_basic ?n s0 \<and> inv_drains (neighbors self) ?n ?seeds s0" ..
  with s0(2) have "(inv_basic ?n s \<and> inv_drains (neighbors self) ?n ?seeds s) \<and> pop_node s = None"
    by (rule pit_loop_invariant) (rule process_node_drains[OF _ assms(2)])
  then show ?thesis by simp
qed

lemma symmetric_listed:
  assumes "symmetric_neighbors nbrs n" and "listed nbrs n p v"
  shows "listed nbrs n v p"
proof -
  from assms(2) obtain j where j: "p < length nbrs" "j \<in> set (nbrs ! p)" "j \<noteq> - 1"
    "in_range n j" "ix n j = v"
    unfolding listed_def by blast
  from assms(1) j(1,2,3,4) have "listed nbrs n (ix n j) p"
    unfolding symmetric_neighbors_def by blast
  then show ?thesis by (simp add: j(5))
qed

lemma drains_path:
  assumes "symmetric_neighbors nbrs n"
  shows "drains nbrs n seeds c d v \<Longrightarrow>
   \<exists>path. hd path = v \<and> is_seed n seeds (last path) \<and> descending_path nbrs n d path"
proof (induction rule: drains.induct)
  case (drains_seed k)
  then have "hd [k] = k \<and> is_seed n seeds (last [k]) \<and> descending_path nbrs n d [k]" by simp
  then show ?case by blast
next
  case (drains_step p v)
  then obtain path where path: "hd path = p" "is_seed n seeds (last path)"
    "descending_path nbrs n d path" by blast
  then obtain rest where rest: "path = p # rest" by (cases path) auto
  have "listed nbrs n v p" using assms drains_step.hyps(2) by (rule symmetric_listed)
  then have "hd (v # path) = v \<and> is_seed n seeds (last (v # path)) \<and>
      descending_path nbrs n d (v # path)"
    using path drains_step.hyps by (simp add: rest)
  then show ?case by blast
qed

text \<open>
  Claim C4. When the fill has run to the end on a grid whose arrays have one entry per
  node and whose neighbor lists are symmetric, the grid's elevation field is the filler's
  array, and every node that was visited (closed) has a path through the neighbor graph to
  an open boundary node along which the elevation of that output surface never rises:
  each node of the path has the next one in its neighbor list, and the next one is not
  higher. So a visited node is an open boundary node itself, or one of its neighbors is at
  most as high as it is: it is not strictly lower than all of its neighbors.
\<close>

theorem pit_fill_visited_nodes_drain:
  assumes "length (neighbors self) = n_nodes self"
    and "length (heap st (dem_ref self)) = n_nodes self"
    and "symmetric_neighbors (neighbors self) (n_nodes self)"
    and "flood self (heap st (dem_ref self)) = Inr s"
    and "v < n_nodes self" and "closed_of s ! v"
  shows "\<exists>out path. pit_fill self st = Inr out \<and>
           elevation_field out = Some (dem_ref self) \<and>
           heap out (dem_ref self) = dem_of s \<and>
           hd path = v \<and> is_seed (n_nodes self) (open_boundary self) (last path) \<and>
           descending_path (neighbors self) (n_nodes self) (heap out (dem_ref self)) path \<and>
           (is_seed (n_nodes self) (open_boundary self) v \<or>
            (\<exists>p. listed (neighbors self) (n_nodes self) v p \<and> closed_of s ! p \<and>
                 heap out (dem_ref self) ! p \<le> heap out (dem_ref self) ! v))"
proof -
  let ?n = "n_nodes self" and ?seeds = "open_boundary self" and ?nbrs = "neighbors self"
  let ?out = "st\<lparr> heap := (heap st)(dem_ref self := dem_of s),
                    elevation_field := Some (dem_ref self) \<rparr>"
  have out: "pit_fill self st = Inr ?out" using assms(4) by (simp add: pit_fill_def)
  have "inv_drains ?nbrs ?n ?seeds s" using flood_drains[OF assms(4,1,2)] by simp
  then have dr: "drains ?nbrs ?n ?seeds (closed_of s) (dem_of s) v"
    using assms(5,6) by (cases s) (simp add: inv_drains_def closed_of_def dem_of_def)
  from drains_path[OF assms(3) dr] obtain path where
    path: "hd path = v" "is_seed ?n ?seeds (last path)" "descending_path ?nbrs ?n (dem_of s) path"
    by blast
  have nopit: "is_seed ?n ?seeds v \<or>
      (\<exists>p. listed ?nbrs ?n v p \<and> closed_of s ! p \<and> dem_of s ! p \<le> dem_of s ! v)"
    using dr
  proof (cases rule: drains.cases)
    case drains_seed
    then show ?thesis by simp
  next
    case (drains_step p)
    have "listed ?nbrs ?n v p" using assms(3) drains_step(2) by (rule symmetric_listed)
    then show ?thesis
      using drains_step drains_closed[of ?nbrs ?n ?seeds "closed_of s" "dem_of s" p] by blast
  qed
  have "heap ?out (dem_ref self) = dem_of s" "elevation_field ?out = Some (dem_ref self)"
    by simp_all
  with out path nopit show ?thesis by (intro exI[of _ ?out] exI[of _ path]) simp
qed

theorem pit_fill_visited_nodes_drain_witness:
  "symmetric_neighbors (neighbors pit_filler) (n_nodes pit_filler) \<and>
   (\<exists>out path. pit_fill pit_filler pit_store_copied = Inr out \<and>
      elevation_field out = Some (dem_ref pit_filler) \<and>
      heap out (dem_ref pit_filler) = [0, 3, 3, 3] \<and> hd path = 2 \<and>
      is_seed (n_nodes pit_filler) (open_boundary pit_filler) (last path) \<and>
      descending_path (neighbors pit_filler) (n_nodes pit_filler) (heap out (dem_ref pit_filler)) path)"
proof -
  let ?s = "([True, True, True, True], [0, 3, 3, 3], [], []) :: fill_state"
  have h1: "length (neighbors pit_filler) = n_nodes pit_filler" by (simp add: pit_filler_def)
  have h2: "length (heap pit_store_copied (dem_ref pit_filler)) = n_nodes pit_filler"
    by (simp add: pit_filler_def pit_store_copied_def)
  have h3: "symmetric_neighbors (neighbors pit_filler) (n_nodes pit_filler)"
    by (simp add: symmetric_neighbors_def listed_def pit_filler_def in_range_def ix_def
        All_less_Suc eval_nat_numeral)
  have h4: "flood pit_filler (heap pit_store_copied (dem_ref pit_filler)) = Inr ?s"
    by (simp add: fill_eval pit_filler_def pit_store_copied_def)
  have h5: "2 < n_nodes pit_filler" by (simp add: pit_filler_def)
  have h6: "closed_of ?s ! 2" by (simp add: closed_of_def)
  from pit_fill_visited_nodes_drain[OF h1 h2 h3 h4 h5 h6] have
    "\<exists>out path. pit_fill pit_filler pit_store_copied = Inr out \<and>
      elevation_field out = Some (dem_ref pit_filler) \<and>
      heap out (dem_ref pit_filler) = [0, 3, 3, 3] \<and> hd path = 2 \<and>
      is_seed (n_nodes pit_filler) (open_boundary pit_filler) (last path) \<and>
      descending_path (neighbors pit_filler) (n_nodes pit_filler) (heap out (dem_ref pit_filler)) path"
    by (auto simp: dem_of_def)
  with h3 show ?thesis ..
qed

section \<open>PitFiller: malformed neighbor lists\<close>

lemma visit_closed:
  assumes "visit node nb s = Inr s'" and "in_visit n node s"
  shows "(\<forall>k < n. closed_of s ! k \<longrightarrow> closed_of s' ! k) \<and>
         (nb \<noteq> - 1 \<longrightarrow> in_range n nb \<and> closed_of s' ! ix n nb) \<and>
         queued s \<subseteq> queued s'"
proof -
  obtain c d r q where s: "s = (c, d, r, q)" by (cases s) auto
  obtain c' d' r' q' where s': "s' = (c', d', r', q')" by (cases s') auto
  have len: "length c = n" "length d = n"
    using assms(2) by (simp_all add: s in_visit_def inv_basic_def)
  from assms(1)[unfolded s s'] len show ?thesis
  proof (cases rule: visit_InrE)
    case skip
    then show ?thesis by (auto simp: s s' closed_of_def queued_def)
  next
    case level
    then show ?thesis
      using len ix_less[of n nb]
      by (auto simp: s s' closed_of_def queued_def nth_list_update)
  next
    case higher
    then show ?thesis
      using len ix_less[of n nb]
      by (auto simp: s s' closed_of_def queued_def nth_list_update)
  qed
qed

lemma visit_neighbors_closed:
  "visit_neighbors node row s = Inr s' \<Longrightarrow> in_visit n node s \<Longrightarrow>
   in_visit n node s' \<and> (\<forall>k < n. closed_of s ! k \<longrightarrow> closed_of s' ! k) \<and>
   (\<forall>j \<in> set row. j \<noteq> - 1 \<longrightarrow> in_range n j \<and> closed_of s' ! ix n j) \<and>
   queued s \<subseteq> queued s'"
proof (induction row arbitrary: s)
  case Nil
  then show ?case by simp
next
  case (Cons nb row)
  from Cons.prems(1) obtain s1 where
    s1: "visit node nb s = Inr s1" "visit_neighbors node row s1 = Inr s'"
    by (auto split: sum.splits)
  have v1: "in_visit n node s1" using Cons.prems(2) s1(1) by (rule visit_basic)
  note a = visit_closed[OF s1(1) Cons.prems(2)]
  note b = Cons.IH[OF s1(2) v1]
  have "nb \<noteq> - 1 \<longrightarrow> in_range n nb \<and> closed_of s' ! ix n nb"
    using a b ix_less[of n nb] by blast
  then show ?case using a b by auto
qed

lemma done_node_mono:
  "done_node nbrs n c k \<Longrightarrow> \<forall>i < n. c ! i \<longrightarrow> c' ! i \<Longrightarrow> done_node nbrs n c' k"
  unfolding done_node_def using ix_less by blast

lemma visit_front:
  assumes "in_visit n node s" and "front_in nbrs n node s" and "visit node nb s = Inr s'"
  shows "front_in nbrs n node s'"
  unfolding front_in_def
proof (intro allI impI)
  fix k assume k: "k < n" "closed_of s' ! k"
  note cl = visit_closed[OF assms(3,1)]
  show "k = ix n node \<or> (\<exists>j \<in> queued s'. ix n j = k) \<or> done_node nbrs n (closed_of s') k"
  proof (cases "closed_of s ! k")
    case True
    then have "k = ix n node \<or> (\<exists>j \<in> queued s. ix n j = k) \<or> done_node nbrs n (closed_of s) k"
      using assms(2) k(1) by (simp add: front_in_def)
    then show ?thesis using cl done_node_mono[of nbrs n "closed_of s" k "closed_of s'"] by blast
  next
    case False
    obtain c d r q where s: "s = (c, d, r, q)" by (cases s) auto
    obtain c' d' r' q' where s': "s' = (c', d', r', q')" by (cases s') auto
    have len: "length c = n" "length d = n"
      using assms(1) by (simp_all add: s in_visit_def inv_basic_def)
    from assms(3)[unfolded s s'] len have "nb \<in> queued s' \<and> ix n nb = k"
    proof (cases rule: visit_InrE)
      case skip
      then show ?thesis using False k by (simp add: s s' closed_of_def)
    next
      case level
      then show ?thesis
        using False k len by (cases "k = ix n nb") (auto simp: s s' closed_of_def queued_def)
    next
      case higher
      then show ?thesis
        using False k len by (cases "k = ix n nb") (auto simp: s s' closed_of_def queued_def)
    qed
    then show ?thesis by blast
  qed
qed

lemma process_node_front:
  assumes "inv_basic n s" and "inv_front nbrs n s" and "length nbrs = n"
    and "pop_node s = Some (node, s1)" and "process_node nbrs node s1 = Inr s2"
  shows "inv_front nbrs n s2"
proof -
  have v1: "in_visit n node s1" using assms(1,4) by (rule pop_node_basic)
  then have nd: "in_range n node" by (simp add: in_visit_def)
  have f1: "front_in nbrs n node s1"
    using assms(2) pop_node_basic(2,3)[OF assms(1,4)]
    by (auto simp: inv_front_def front_in_def)
  have vn: "visit_neighbors node (nbrs ! ix n node) s1 = Inr s2"
    using assms(3,5) nd by (simp add: process_node_def py_get_eq)
  have "in_visit n node s2 \<and> front_in nbrs n node s2"
  proof (rule visit_neighbors_invariant[OF vn,
        where J = "\<lambda>t. in_visit n node t \<and> front_in nbrs n node t"])
    show "in_visit n node s1 \<and> front_in nbrs n node s1" using v1 f1 ..
  next
    fix t nb t'
    assume t: "in_visit n node t \<and> front_in nbrs n node t" and v: "visit node nb t = Inr t'"
    show "in_visit n node t' \<and> front_in nbrs n node t'"
      using t v by (blast intro: visit_basic visit_front)
  qed
  moreover have "done_node nbrs n (closed_of s2) (ix n node)"
    using visit_neighbors_closed[OF vn v1] by (simp add: done_node_def)
  ultimately show ?thesis by (auto simp: inv_front_def front_in_def)
qed

lemma seeded_state:
  assumes "seed_boundary seeds (replicate n False, d0, [], []) = Inr s0" and "length d0 = n"
  shows "inv_basic n s0" and "dem_of s0 = d0"
    and "\<forall>k < n. closed_of s0 ! k \<longleftrightarrow> is_seed n seeds k"
    and "queued s0 = set seeds" and "\<forall>i \<in> set seeds. in_range n i"
proof -
  obtain c d r q where s0: "s0 = (c, d, r, q)" by (cases s0) auto
  from seed_boundary_result[OF assms(1)[unfolded s0], of n] assms(2)
  have res: "d = d0" "r = []" "length c = n" "\<forall>i \<in> set seeds. in_range n i"
    "\<forall>k < n. c ! k \<longleftrightarrow> is_seed n seeds k"
    "set q = (\<lambda>i. (d0 ! ix n i, i)) ` set seeds"
    by simp_all
  show qs: "queued s0 = set seeds" using res(2,6) by (simp add: s0 queued_def image_image)
  have "\<forall>j \<in> set seeds. in_range n j \<and> c ! ix n j"
    using res(4,5) by (auto simp: is_seed_def ix_less)
  then show "inv_basic n s0"
    using res(1,3) assms(2) unfolding inv_basic_def qs[symmetric] by (simp add: s0)
  show "dem_of s0 = d0" using res by (simp add: s0 dem_of_def)
  show "\<forall>k < n. closed_of s0 ! k \<longleftrightarrow> is_seed n seeds k"
    using res by (simp add: s0 closed_of_def)
  show "\<forall>i \<in> set seeds. in_range n i" using res by simp
qed

lemma pop_node_None_queued: "pop_node s = None \<Longrightarrow> queued s = {}"
  by (cases s rule: pop_node.cases) (simp_all add: queued_def)

lemma flood_front:
  assumes "flood self d0 = Inr s" and "length (neighbors self) = n_nodes self"
    and "length d0 = n_nodes self"
  shows "\<forall>k < n_nodes self. closed_of s ! k \<longrightarrow>
           done_node (neighbors self) (n_nodes self) (closed_of s) k"
proof -
  let ?n = "n_nodes self" and ?nbrs = "neighbors self"
  from assms(1) obtain s0 where
    s0: "seed_boundary (open_boundary self) (replicate ?n False, d0, [], []) = Inr s0"
      "pit_loop ?nbrs s0 = Inr s"
    by (auto simp: flood_def split: sum.splits)
  note sd = seeded_state[OF s0(1) assms(3)]
  have "inv_front ?nbrs ?n s0"
    using sd(3,4) by (auto simp: inv_front_def is_seed_def)
  with sd(1) have "inv_basic ?n s0 \<and> inv_front ?nbrs ?n s0" ..
  with s0(2) have "(inv_basic ?n s \<and> inv_front ?nbrs ?n s) \<and> pop_node s = None"
  proof (rule pit_loop_invariant)
    fix t node t1 t2
    assume "inv_basic ?n t \<and> inv_front ?nbrs ?n t" "pop_node t = Some (node, t1)"
      "process_node ?nbrs node t1 = Inr t2"
    then show "inv_basic ?n t2 \<and> inv_front ?nbrs ?n t2"
      using assms(2) by (blast intro: process_node_basic process_node_front)
  qed
  then show ?thesis using pop_node_None_queued[of s] by (auto simp: inv_front_def)
qed

lemma visit_total:
  assumes "in_visit n node s" and "nb = - 1 \<or> in_range n nb"
  shows "\<exists>s'. visit node nb s = Inr s'"
proof -
  obtain c d r q where s: "s = (c, d, r, q)" by (cases s) auto
  have len: "length c = n" "length d = n" and nd: "in_range n node"
    using assms(1) by (simp_all add: s in_visit_def inv_basic_def)
  note eq = visit_eq[OF len, of node nb r q]
  consider (a) "nb = - 1" | (b) "nb \<noteq> - 1" "c ! ix n nb"
    | (c) "nb \<noteq> - 1" "\<not> c ! ix n nb" "d ! ix n nb \<le> d ! ix n node"
    | (d) "nb \<noteq> - 1" "\<not> c ! ix n nb" "\<not> d ! ix n nb \<le> d ! ix n node"
    by blast
  then show ?thesis
  proof cases
    case a
    then have "visit node nb s = Inr (c, d, r, q)" unfolding s eq by simp
    then show ?thesis ..
  next
    case b
    then have "visit node nb s = Inr (c, d, r, q)" unfolding s eq using assms(2) by simp
    then show ?thesis ..
  next
    case c
    then have "visit node nb s =
        Inr (c[ix n nb := True], d[ix n nb := d ! ix n node], r @ [nb], q)"
      unfolding s eq using assms(2) nd by simp
    then show ?thesis ..
  next
    case d
    then have "visit node nb s =
        Inr (c[ix n nb := True], d, r, priority_put (d ! ix n nb, nb) q)"
      unfolding s eq using assms(2) nd by simp
    then show ?thesis ..
  qed
qed

lemma visit_neighbors_total:
  "in_visit n node s \<Longrightarrow> \<forall>nb \<in> set row. nb = - 1 \<or> in_range n nb \<Longrightarrow>
   \<exists>s'. visit_neighbors node row s = Inr s'"
proof (induction row arbitrary: s)
  case Nil
  show ?case by (rule exI[of _ s]) simp
next
  case (Cons nb row)
  from visit_total[OF Cons.prems(1), of nb] Cons.prems(2)
  obtain s1 where s1: "visit node nb s = Inr s1" by auto
  have "in_visit n node s1" using Cons.prems(1) s1 by (rule visit_basic)
  from Cons.IH[OF this] Cons.prems(2) show ?case by (simp add: s1)
qed

lemma pit_loop_total:
  assumes "I s"
    and "\<And>s node s1. I s \<Longrightarrow> pop_node s = Some (node, s1) \<Longrightarrow>
           \<exists>s2. process_node nbrs node s1 = Inr s2 \<and> I s2"
  shows "\<exists>s'. pit_loop nbrs s = Inr s'"
  using assms
proof (induction nbrs s rule: pit_loop.induct)
  case (1 nbrs s)
  show ?case
  proof (cases "pop_node s")
    case None
    then have "pit_loop nbrs s = Inr s" by (simp add: pit_loop.simps)
    then show ?thesis by blast
  next
    case (Some x)
    obtain node s1 where x: "x = (node, s1)" by (cases x) auto
    from "1.prems"(2)[OF "1.prems"(1) Some[unfolded x]] obtain s2 where
      s2: "process_node nbrs node s1 = Inr s2" "I s2" by blast
    have "\<exists>s'. pit_loop nbrs s2 = Inr s'"
      using "1.IH"[OF Some x[symmetric] s2(1) s2(2)] "1.prems"(2) by blast
    then show ?thesis using Some x s2(1) by (subst pit_loop.simps) simp
  qed
qed

lemma seed_boundary_total:
  "\<forall>i \<in> set seeds. in_range n i \<Longrightarrow> length c = n \<Longrightarrow> length d = n \<Longrightarrow>
   \<exists>s0. seed_boundary seeds (c, d, r, q) = Inr s0"
  by (induction seeds arbitrary: c q) (simp_all add: py_get_eq py_set_eq)

lemma flood_total:
  assumes "length (neighbors self) = n_nodes self" and "length d0 = n_nodes self"
    and "\<forall>i \<in> set (open_boundary self). in_range (n_nodes self) i"
    and "ids_in_range (neighbors self) (n_nodes self)"
  shows "\<exists>s. flood self d0 = Inr s"
proof -
  let ?n = "n_nodes self" and ?nbrs = "neighbors self"
  from seed_boundary_total[OF assms(3), of "replicate ?n False" d0 "[]" "[]"] assms(2)
  obtain s0 where
    s0: "seed_boundary (open_boundary self) (replicate ?n False, d0, [], []) = Inr s0"
    by auto
  have "inv_basic ?n s0" using s0 assms(2) by (rule seeded_state)
  then have "\<exists>s. pit_loop ?nbrs s0 = Inr s"
  proof (rule pit_loop_total)
    fix t node t1
    assume t: "inv_basic ?n t" "pop_node t = Some (node, t1)"
    then have v1: "in_visit ?n node t1" by (rule pop_node_basic)
    then have nd: "in_range ?n node" by (simp add: in_visit_def)
    then have "?nbrs ! ix ?n node \<in> set ?nbrs" using assms(1) by (simp add: ix_less)
    then have "\<forall>nb \<in> set (?nbrs ! ix ?n node). nb = - 1 \<or> in_range ?n nb"
      using assms(4) by (simp add: ids_in_range_def)
    from visit_neighbors_total[OF v1 this] obtain t2 where
      "visit_neighbors node (?nbrs ! ix ?n node) t1 = Inr t2" by blast
    then have p: "process_node ?nbrs node t1 = Inr t2"
      using assms(1) nd by (simp add: process_node_def py_get_eq)
    with t have "inv_basic ?n t2" by (rule process_node_basic)
    with p show "\<exists>t2. process_node ?nbrs node t1 = Inr t2 \<and> inv_basic ?n t2" by blast
  qed
  then show ?thesis by (simp add: flood_def s0)
qed

lemma visit_error: "visit node nb s = Inl (e, t) \<Longrightarrow> e = IndexError"
  by (cases s) (auto simp: py_get_eq py_set_eq split: if_splits bool.splits)

lemma visit_neighbors_error: "visit_neighbors node row s = Inl (e, t) \<Longrightarrow> e = IndexError"
  by (induction row arbitrary: s) (auto split: sum.splits dest: visit_error)

lemma pit_loop_error: "pit_loop nbrs s = Inl (e, t) \<Longrightarrow> e = IndexError"
proof (induction nbrs s rule: pit_loop.induct)
  case (1 nbrs s)
  show ?case
  proof (cases "pop_node s")
    case None
    then show ?thesis using "1.prems" by (simp add: pit_loop.simps)
  next
    case (Some x)
    obtain node s1 where x: "x = (node, s1)" by (cases x) auto
    show ?thesis
    proof (cases "process_node nbrs node s1")
      case (Inl a)
      then have "a = (e, t)" using "1.prems" Some x by (subst (asm) pit_loop.simps) simp
      then show ?thesis
        using Inl by (auto simp: process_node_def py_get_eq split: sum.splits if_splits
            dest: visit_neighbors_error)
    next
      case (Inr s2)
      then have "pit_loop nbrs s2 = Inl (e, t)"
        using "1.prems" Some x by (subst (asm) pit_loop.simps) simp
      then show ?thesis using "1.IH"[OF Some x[symmetric] Inr] by simp
    qed
  qed
qed

lemma seed_boundary_error: "seed_boundary seeds s = Inl (e, t) \<Longrightarrow> e = IndexError"
proof (induction seeds arbitrary: s)
  case Nil
  then show ?case by simp
next
  case (Cons i seeds)
  obtain c d r q where s: "s = (c, d, r, q)" by (cases s) auto
  from Cons.prems show ?case
    unfolding s by (auto simp: py_get_eq py_set_eq split: if_splits dest: Cons.IH)
qed

lemma flood_error: "flood self d0 = Inl (e, t) \<Longrightarrow> e = IndexError"
  by (auto simp: flood_def split: sum.splits dest: seed_boundary_error pit_loop_error)

text \<open>
  Claim C9, as amended. The filler has no check of its neighbor lists and no
  \<^verbatim>\<open>InvalidGrid\<close> condition. On a filler whose arrays have one entry per node: a call in
  which every neighbor id is the sentinel or lies in \<open>[-n, n)\<close> completes, dangling or not;
  a call that fails fails with \<^verbatim>\<open>IndexError\<close>, and leaves the grid's elevation field and
  every array but the filler's own copy as they were; and a call that completes has met no
  id outside \<open>[-n, n)\<close> in the neighbor list of any node it visited.
\<close>

theorem pit_fill_malformed_adjacency:
  assumes "length (neighbors self) = n_nodes self"
    and "length (heap st (dem_ref self)) = n_nodes self"
    and "\<forall>i \<in> set (open_boundary self). in_range (n_nodes self) i"
  shows "(ids_in_range (neighbors self) (n_nodes self) \<longrightarrow> (\<exists>out. pit_fill self st = Inr out)) \<and>
    (\<forall>e out. pit_fill self st = Inl (e, out) \<longrightarrow>
       e = IndexError \<and> elevation_field out = elevation_field st \<and>
       (\<forall>a. a \<noteq> dem_ref self \<longrightarrow> heap out a = heap st a)) \<and>
    (\<forall>s. flood self (heap st (dem_ref self)) = Inr s \<longrightarrow>
       (\<forall>k < n_nodes self. closed_of s ! k \<longrightarrow>
          (\<forall>j \<in> set (neighbors self ! k). j = - 1 \<or> in_range (n_nodes self) j)))"
proof (intro conjI allI impI)
  assume "ids_in_range (neighbors self) (n_nodes self)"
  from flood_total[OF assms(1,2,3) this] obtain s where
    "flood self (heap st (dem_ref self)) = Inr s" by blast
  then show "\<exists>out. pit_fill self st = Inr out" by (simp add: pit_fill_def)
next
  fix e out assume f: "pit_fill self st = Inl (e, out)"
  then obtain t where t: "flood self (heap st (dem_ref self)) = Inl (e, t)"
    and out: "out = st\<lparr> heap := (heap st)(dem_ref self := dem_of t) \<rparr>"
    by (auto simp: pit_fill_def split: sum.splits)
  show "e = IndexError" using t by (rule flood_error)
  show "elevation_field out = elevation_field st" by (simp add: out)
  fix a assume "a \<noteq> dem_ref self"
  then show "heap out a = heap st a" by (simp add: out)
next
  fix s k assume s: "flood self (heap st (dem_ref self)) = Inr s"
    and k: "k < n_nodes self" "closed_of s ! k"
  have "done_node (neighbors self) (n_nodes self) (closed_of s) k"
    using flood_front[OF s assms(1,2)] k by simp
  then show "\<forall>j \<in> set (neighbors self ! k). j = - 1 \<or> in_range (n_nodes self) j"
    by (auto simp: done_node_def)
qed

theorem pit_fill_malformed_adjacency_witness:
  "7 \<in> set (neighbors dangling_filler ! 1) \<and> \<not> in_range (n_nodes dangling_filler) 7 \<and>
   (\<exists>out. pit_fill dangling_filler pit_store_copied = Inl (IndexError, out) \<and>
      elevation_field out = Some 0 \<and> heap out 0 = [0, 3, 1, 2] \<and> heap out 1 = [0, 3, 3, 2])"
proof -
  have h1: "length (neighbors dangling_filler) = n_nodes dangling_filler"
    by (simp add: dangling_filler_def pit_filler_def)
  have h2: "length (heap pit_store_copied (dem_ref dangling_filler)) = n_nodes dangling_filler"
    by (simp add: dangling_filler_def pit_filler_def pit_store_copied_def)
  have h3: "\<forall>i \<in> set (open_boundary dangling_filler). in_range (n_nodes dangling_filler) i"
    by (simp add: dangling_filler_def pit_filler_def in_range_def)
  let ?out = "pit_store_copied\<lparr> heap := (heap pit_store_copied)(1 := [0, 3, 3, 2]) \<rparr>"
  have f: "pit_fill dangling_filler pit_store_copied = Inl (IndexError, ?out)"
    by (simp add: fill_eval dangling_filler_def pit_filler_def pit_store_copied_def)
  from pit_fill_malformed_adjacency[OF h1 h2 h3] f
  have "elevation_field ?out = elevation_field pit_store_copied \<and>
        (\<forall>a. a \<noteq> dem_ref dangling_filler \<longrightarrow> heap ?out a = heap pit_store_copied a)"
    by blast
  then have "elevation_field ?out = Some 0 \<and> heap ?out 0 = [0, 3, 1, 2]"
    by (simp add: pit_store_copied_def dangling_filler_def pit_filler_def)
  moreover have "heap ?out 1 = [0, 3, 3, 2]" by simp
  moreover have "7 \<in> set (neighbors dangling_filler ! 1) \<and> \<not> in_range (n_nodes dangling_filler) 7"
    by (simp add: dangling_filler_def pit_filler_def in_range_def)
  ultimately show ?thesis using f by blast
qed

text \<open>
  Claim C9 as stated fails: the id -2 in the neighbor list of node 0 is no node id and not
  the sentinel, and the call completes. Node 2 is flooded from the outlet, so it keeps
  its elevation 1, below the elevation 3 of node 1 that lies between it and the outlet.
\<close>

theorem pit_fill_dangling_id_counterexample:
  "- 2 \<in> set (neighbors alias_filler ! 0) \<and>
   pit_fill alias_filler pit_store_copied =
     Inr (pit_store_copied\<lparr> heap := (heap pit_store_copied)(1 := [0, 3, 1, 2]),
                             elevation_field := Some 1 \<rparr>)"
  by (simp add: fill_eval alias_filler_def pit_filler_def pit_store_copied_def)

section \<open>PitFiller: filling a filled surface changes nothing\<close>

lemma sorted_priority_put:
  "sorted_wrt (\<lambda>a b. fst a \<le> fst b) q \<Longrightarrow> sorted_wrt (\<lambda>a b. fst a \<le> fst b) (priority_put x q)"
proof (induction q)
  case Nil
  then show ?case by simp
next
  case (Cons y ys)
  show ?case
  proof (cases "tuple_le x y")
    case True
    then have "fst x \<le> fst y" by (auto simp: tuple_le_def)
    then have "\<forall>z \<in> set (y # ys). fst x \<le> fst z" using Cons.prems by auto
    then show ?thesis using True Cons.prems by simp
  next
    case False
    then have "fst y \<le> fst x" by (auto simp: tuple_le_def)
    then show ?thesis using False Cons by auto
  qed
qed

lemma pop_node_level:
  assumes "inv_level n s" and "pop_node s = Some (node, s1)"
  shows "level_in n node s1"
  using assms
  by (cases s rule: pop_node.cases) (auto simp: inv_level_def level_in_def)

lemma level_in_inv: "level_in n node s \<Longrightarrow> inv_level n s"
  by (cases s) (auto simp: inv_level_def level_in_def)

lemma visit_level:
  assumes "in_visit n node s" and "level_in n node s" and "visit node nb s = Inr s'"
  shows "level_in n node s'"
proof -
  obtain c d r q where s: "s = (c, d, r, q)" by (cases s) auto
  obtain c' d' r' q' where s': "s' = (c', d', r', q')" by (cases s') auto
  let ?m = "ix n node" and ?k = "ix n nb"
  have len: "length c = n" "length d = n"
    and m: "c ! ?m"
    and qc: "\<forall>j \<in> set r \<union> snd ` set q. c ! ix n j"
    using assms(1) by (simp_all add: s in_visit_def inv_basic_def closed_of_def queued_def)
  have "sorted_wrt (\<lambda>a b. fst a \<le> fst b) q \<and>
      (\<forall>x \<in> set q. fst x = d ! ix n (snd x) \<and> d ! ?m \<le> fst x) \<and>
      (\<forall>j \<in> set r. d ! ix n j = d ! ?m)"
    using assms(2) unfolding s level_in_def prod.case .
  then have lv: "sorted_wrt (\<lambda>a b. fst a \<le> fst b) q"
    "\<forall>x \<in> set q. fst x = d ! ix n (snd x) \<and> d ! ?m \<le> fst x"
    "\<forall>j \<in> set r. d ! ix n j = d ! ?m"
    by blast+
  from assms(3)[unfolded s s'] len show ?thesis
  proof (cases rule: visit_InrE)
    case skip
    then show ?thesis using assms(2) by (simp add: s s')
  next
    case level
    have kn: "?k < n" using level(2) by (rule ix_less)
    have km: "?k \<noteq> ?m" using m level(3) by auto
    have same: "d' ! ix n j = d ! ix n j" if "c ! ix n j" for j
      using that level(3,7) by (cases "ix n j = ?k") simp_all
    have dm: "d' ! ?m = d ! ?m" using m by (rule same)
    have a: "\<forall>x \<in> set q'. fst x = d' ! ix n (snd x) \<and> d' ! ?m \<le> fst x"
    proof
      fix x assume x: "x \<in> set q'"
      then have cx: "c ! ix n (snd x)" using qc level(9) by auto
      from lv(2) x level(9) have f: "fst x = d ! ix n (snd x)" "d ! ?m \<le> fst x" by auto
      show "fst x = d' ! ix n (snd x) \<and> d' ! ?m \<le> fst x"
        using f same[OF cx] dm by simp
    qed
    have b: "\<forall>j \<in> set r'. d' ! ix n j = d' ! ?m"
    proof
      fix j assume "j \<in> set r'"
      then consider "j \<in> set r" | "j = nb" using level(8) by auto
      then show "d' ! ix n j = d' ! ?m"
      proof cases
        case 1
        then have cj: "c ! ix n j" using qc by auto
        from lv(3) 1 have "d ! ix n j = d ! ?m" by blast
        then show ?thesis using same[OF cj] dm by simp
      next
        case 2
        then show ?thesis using level(7) kn len dm by simp
      qed
    qed
    have "sorted_wrt (\<lambda>a b. fst a \<le> fst b) q'" using lv(1) level(9) by simp
    then show ?thesis unfolding s' level_in_def prod.case using a b by blast
  next
    case higher
    have a: "\<forall>x \<in> set q'. fst x = d' ! ix n (snd x) \<and> d' ! ?m \<le> fst x"
      using lv(2) higher by auto
    have "sorted_wrt (\<lambda>a b. fst a \<le> fst b) q'"
      using lv(1) higher(9) by (simp add: sorted_priority_put)
    moreover have "\<forall>j \<in> set r'. d' ! ix n j = d' ! ?m" using lv(3) higher(7,8) by simp
    ultimately show ?thesis unfolding s' level_in_def prod.case using a by blast
  qed
qed

lemma rerun_not_lower:
  assumes "drains nbrs n seeds V d1 v" and "length V = n"
    and "in_visit n node s" and "front_in nbrs n node s" and "level_in n node s"
    and "inv_rerun n seeds V d1 s"
  shows "\<not> closed_of s ! v \<longrightarrow> d1 ! ix n node \<le> d1 ! v"
  using assms(1)
proof (induction rule: drains.induct)
  case (drains_seed k)
  then show ?case using assms(2,6) by (simp add: inv_rerun_def)
next
  case (drains_step p v)
  obtain c d r q where s: "s = (c, d, r, q)" by (cases s) auto
  have d: "d = d1" using assms(6) by (simp add: s inv_rerun_def dem_of_def)
  have p: "p < n" using drains_closed[OF drains_step.hyps(1)] assms(2) by simp
  show ?case
  proof
    assume v: "\<not> closed_of s ! v"
    show "d1 ! ix n node \<le> d1 ! v"
    proof (cases "closed_of s ! p")
      case False
      then have "d1 ! ix n node \<le> d1 ! p" using drains_step.IH by simp
      then show ?thesis using drains_step.hyps(5) by simp
    next
      case True
      then consider (cur) "p = ix n node" | (que) "\<exists>j \<in> queued s. ix n j = p"
        | (don) "done_node nbrs n (closed_of s) p"
        using assms(4) p unfolding front_in_def by blast
      then show ?thesis
      proof cases
        case cur
        then show ?thesis using drains_step.hyps(5) by simp
      next
        case que
        then obtain j where j: "j \<in> set r \<union> snd ` set q" "ix n j = p"
          by (auto simp: s queued_def)
        have "d ! ix n node \<le> d ! ix n j"
          using assms(5) j(1) by (auto simp: s level_in_def)
        then show ?thesis using drains_step.hyps(5) j(2) d by simp
      next
        case don
        then have "closed_of s ! v"
          using drains_step.hyps(2) by (auto simp: done_node_def listed_def)
        then show ?thesis using v by simp
      qed
    qed
  qed
qed

lemma visit_rerun:
  assumes "in_visit n node s" and "front_in nbrs n node s" and "level_in n node s"
    and "inv_rerun n seeds V d1 s"
    and "length nbrs = n" and "length V = n"
    and "\<forall>k < n. V ! k \<longrightarrow> drains nbrs n seeds V d1 k"
    and "\<forall>k < n. V ! k \<longrightarrow> done_node nbrs n V k"
    and "nb \<in> set (nbrs ! ix n node)" and "visit node nb s = Inr s'"
  shows "inv_rerun n seeds V d1 s'"
proof -
  obtain c d r q where s: "s = (c, d, r, q)" by (cases s) auto
  obtain c' d' r' q' where s': "s' = (c', d', r', q')" by (cases s') auto
  let ?m = "ix n node" and ?k = "ix n nb"
  have len: "length c = n" "length d = n" and m: "in_range n node" "c ! ?m"
    using assms(1) by (simp_all add: s in_visit_def inv_basic_def closed_of_def)
  have re: "d = d1" "\<forall>k < n. c ! k \<longrightarrow> V ! k" "\<forall>k < n. is_seed n seeds k \<longrightarrow> c ! k"
    using assms(4) by (simp_all add: s inv_rerun_def dem_of_def closed_of_def)
  have fresh: "V ! ?k \<and> d ! ?m \<le> d ! ?k" if nb: "nb \<noteq> - 1" "in_range n nb" "\<not> c ! ?k"
  proof -
    have kn: "?k < n" using nb(2) by (rule ix_less)
    have "V ! ?m" using re(2) m ix_less by blast
    then have "done_node nbrs n V ?m" using assms(8) m(1) ix_less by blast
    then have Vk: "V ! ?k" using assms(9) nb(1) by (auto simp: done_node_def)
    then have "drains nbrs n seeds V d1 ?k" using assms(7) kn by simp
    from rerun_not_lower[OF this assms(6,1,2,3,4)] nb(3)
    have "d1 ! ?m \<le> d1 ! ?k" by (simp add: s closed_of_def)
    then show ?thesis using Vk re(1) by simp
  qed
  from assms(10)[unfolded s s'] len show ?thesis
  proof (cases rule: visit_InrE)
    case skip
    then show ?thesis using assms(4) by (simp add: s s')
  next
    case level
    have kn: "?k < n" using level(2) by (rule ix_less)
    from fresh[OF level(1,2,3)] level(5) have "V ! ?k" "d ! ?k = d ! ?m" by simp_all
    then have "d' = d1" "\<forall>k < n. c' ! k \<longrightarrow> V ! k"
      using level(6,7) re(1,2) len kn by (auto simp: nth_list_update list_update_same_conv)
    moreover have "\<forall>k < n. is_seed n seeds k \<longrightarrow> c' ! k"
      using re(3) level(6) len kn by (auto simp: nth_list_update)
    ultimately show ?thesis by (simp add: s' inv_rerun_def dem_of_def closed_of_def)
  next
    case higher
    have kn: "?k < n" using higher(2) by (rule ix_less)
    from fresh[OF higher(1,2,3)] have "V ! ?k" by simp
    then have "d' = d1" "\<forall>k < n. c' ! k \<longrightarrow> V ! k"
      using higher(6,7) re(1,2) len kn by (auto simp: nth_list_update)
    moreover have "\<forall>k < n. is_seed n seeds k \<longrightarrow> c' ! k"
      using re(3) higher(6) len kn by (auto simp: nth_list_update)
    ultimately show ?thesis by (simp add: s' inv_rerun_def dem_of_def closed_of_def)
  qed
qed

lemma process_node_rerun:
  assumes "inv_basic n s" and "inv_front nbrs n s" and "inv_level n s"
    and "inv_rerun n seeds V d1 s"
    and "length nbrs = n" and "length V = n"
    and "\<forall>k < n. V ! k \<longrightarrow> drains nbrs n seeds V d1 k"
    and "\<forall>k < n. V ! k \<longrightarrow> done_node nbrs n V k"
    and "pop_node s = Some (node, s1)"
  shows "\<exists>s2. process_node nbrs node s1 = Inr s2 \<and> inv_basic n s2 \<and> inv_front nbrs n s2 \<and>
           inv_level n s2 \<and> inv_rerun n seeds V d1 s2"
proof -
  let ?m = "ix n node"
  let ?J = "\<lambda>t. in_visit n node t \<and> front_in nbrs n node t \<and> level_in n node t \<and>
                inv_rerun n seeds V d1 t"
  note pb = pop_node_basic[OF assms(1,9)]
  have v1: "in_visit n node s1" by (rule pb(1))
  then have nd: "in_range n node" and cm: "closed_of s1 ! ?m" by (simp_all add: in_visit_def)
  have mn: "?m < n" using nd by (rule ix_less)
  have f1: "front_in nbrs n node s1"
    using assms(2) pb(2,3) by (auto simp: inv_front_def front_in_def)
  have l1: "level_in n node s1" using assms(3,9) by (rule pop_node_level)
  have r1: "inv_rerun n seeds V d1 s1"
    using assms(4) pb(3,4) by (simp add: inv_rerun_def)
  have "V ! ?m" using r1 cm mn by (simp add: inv_rerun_def)
  then have "done_node nbrs n V ?m" using assms(8) mn by simp
  then have "\<forall>nb \<in> set (nbrs ! ?m). nb = - 1 \<or> in_range n nb"
    by (auto simp: done_node_def)
  from visit_neighbors_total[OF v1 this] obtain s2 where
    vn: "visit_neighbors node (nbrs ! ?m) s1 = Inr s2" by blast
  then have pr: "process_node nbrs node s1 = Inr s2"
    using assms(5) nd by (simp add: process_node_def py_get_eq)
  have "?J s2"
  proof (rule visit_neighbors_invariant[OF vn, where J = ?J])
    show "?J s1" using v1 f1 l1 r1 by blast
  next
    fix t nb t'
    assume t: "?J t" and nb: "nb \<in> set (nbrs ! ?m)" and v: "visit node nb t = Inr t'"
    have "in_visit n node t'" using t v by (blast intro: visit_basic)
    moreover have "front_in nbrs n node t'" using t v by (blast intro: visit_front)
    moreover have "level_in n node t'" using t v by (blast intro: visit_level)
    moreover have "inv_rerun n seeds V d1 t'"
      by (rule visit_rerun[OF _ _ _ _ assms(5,6,7,8) nb v]) (use t in blast)+
    ultimately show "?J t'" by blast
  qed
  then have "inv_level n s2" "inv_rerun n seeds V d1 s2"
    by (blast intro: level_in_inv)+
  moreover have "inv_basic n s2" using assms(1,9) pr by (rule process_node_basic)
  moreover have "inv_front nbrs n s2" using assms(1,2,5,9) pr by (rule process_node_front)
  ultimately show ?thesis using pr by blast
qed

lemma seed_boundary_sorted:
  "seed_boundary seeds (c, d, r, q) = Inr (c', d', r', q') \<Longrightarrow>
   sorted_wrt (\<lambda>a b. fst a \<le> fst b) q \<Longrightarrow> sorted_wrt (\<lambda>a b. fst a \<le> fst b) q'"
proof (induction seeds arbitrary: c q)
  case Nil
  then show ?case by simp
next
  case (Cons i seeds)
  from Cons.prems(1) obtain c1 z where
    rest: "seed_boundary seeds (c1, d, r, priority_put (z, i) q) = Inr (c', d', r', q')"
    by (auto split: sum.splits)
  have "sorted_wrt (\<lambda>a b. fst a \<le> fst b) (priority_put (z, i) q)"
    using Cons.prems(2) by (rule sorted_priority_put)
  with rest show ?case by (rule Cons.IH)
qed

lemma seeded_level:
  assumes "seed_boundary seeds (replicate n False, d0, [], []) = Inr s0" and "length d0 = n"
  shows "inv_level n s0"
proof -
  obtain c d r q where s0: "s0 = (c, d, r, q)" by (cases s0) auto
  from seed_boundary_result[OF assms(1)[unfolded s0], of n] assms(2)
  have res: "d = d0" "r = []" "set q = (\<lambda>i. (d0 ! ix n i, i)) ` set seeds"
    by simp_all
  have "sorted_wrt (\<lambda>a b. fst a \<le> fst b) q"
    using seed_boundary_sorted[OF assms(1)[unfolded s0]] by simp
  moreover have "\<forall>x \<in> set q. fst x = d ! ix n (snd x)" using res(1,3) by auto
  ultimately show ?thesis unfolding s0 inv_level_def prod.case using res(2) by simp
qed

lemma process_node_closed_mono:
  assumes "inv_basic n s" and "pop_node s = Some (node, s1)"
    and "process_node nbrs node s1 = Inr s2"
  shows "\<forall>k < n. closed_of s ! k \<longrightarrow> closed_of s2 ! k"
proof -
  from assms(3) obtain row where row: "visit_neighbors node row s1 = Inr s2"
    by (auto simp: process_node_def split: sum.splits)
  have "in_visit n node s1" using assms(1,2) by (rule pop_node_basic)
  from visit_neighbors_closed[OF row this] pop_node_basic(3)[OF assms(1,2)]
  show ?thesis by simp
qed

lemma flood_seeds_closed:
  assumes "flood self d0 = Inr s" and "length d0 = n_nodes self"
  shows "inv_basic (n_nodes self) s"
    and "\<forall>k < n_nodes self. is_seed (n_nodes self) (open_boundary self) k \<longrightarrow> closed_of s ! k"
    and "\<forall>i \<in> set (open_boundary self). in_range (n_nodes self) i"
proof -
  let ?n = "n_nodes self" and ?seeds = "open_boundary self"
  let ?I = "\<lambda>t. inv_basic ?n t \<and> (\<forall>k < ?n. is_seed ?n ?seeds k \<longrightarrow> closed_of t ! k)"
  from assms(1) obtain s0 where
    s0: "seed_boundary ?seeds (replicate ?n False, d0, [], []) = Inr s0"
      "pit_loop (neighbors self) s0 = Inr s"
    by (auto simp: flood_def split: sum.splits)
  note sd = seeded_state[OF s0(1) assms(2)]
  show "\<forall>i \<in> set ?seeds. in_range ?n i" by (rule sd(5))
  have "?I s0" using sd(1,3) by simp
  with s0(2) have "?I s \<and> pop_node s = None"
  proof (rule pit_loop_invariant)
    fix t node t1 t2
    assume t: "?I t" and p: "pop_node t = Some (node, t1)"
      and pr: "process_node (neighbors self) node t1 = Inr t2"
    from t have tb: "inv_basic ?n t"
      and ts: "\<forall>k < ?n. is_seed ?n ?seeds k \<longrightarrow> closed_of t ! k" by simp_all
    have b2: "inv_basic ?n t2" using tb p pr by (rule process_node_basic)
    have "\<forall>k < ?n. closed_of t ! k \<longrightarrow> closed_of t2 ! k"
      using tb p pr by (rule process_node_closed_mono)
    with ts have "\<forall>k < ?n. is_seed ?n ?seeds k \<longrightarrow> closed_of t2 ! k" by simp
    with b2 show "?I t2" by simp
  qed
  then show "inv_basic ?n s"
    and "\<forall>k < ?n. is_seed ?n ?seeds k \<longrightarrow> closed_of s ! k" by simp_all
qed

lemma flood_rerun:
  assumes "flood self d0 = Inr s1" and "length (neighbors self) = n_nodes self"
    and "length d0 = n_nodes self"
  shows "\<exists>s2. flood self (dem_of s1) = Inr s2 \<and> dem_of s2 = dem_of s1"
proof -
  let ?n = "n_nodes self" and ?seeds = "open_boundary self" and ?nbrs = "neighbors self"
  let ?V = "closed_of s1" and ?d1 = "dem_of s1"
  let ?I = "\<lambda>t. inv_basic ?n t \<and> inv_front ?nbrs ?n t \<and> inv_level ?n t \<and>
                inv_rerun ?n ?seeds ?V ?d1 t"
  note fs = flood_seeds_closed[OF assms(1,3)]
  have lenV: "length ?V = ?n" and lend: "length ?d1 = ?n"
    using fs(1) by (cases s1; simp add: inv_basic_def closed_of_def dem_of_def)+
  have H1: "\<forall>k < ?n. ?V ! k \<longrightarrow> drains ?nbrs ?n ?seeds ?V ?d1 k"
    using flood_drains[OF assms] by (cases s1) (simp add: inv_drains_def closed_of_def dem_of_def)
  have H2: "\<forall>k < ?n. ?V ! k \<longrightarrow> done_node ?nbrs ?n ?V k"
    using assms by (rule flood_front)
  from seed_boundary_total[OF fs(3), of "replicate ?n False" ?d1 "[]" "[]"] lend
  obtain s0 where
    s0: "seed_boundary ?seeds (replicate ?n False, ?d1, [], []) = Inr s0" by auto
  note sd = seeded_state[OF s0 lend]
  have "inv_front ?nbrs ?n s0" using sd(3,4) by (auto simp: inv_front_def is_seed_def)
  moreover have "inv_level ?n s0" using s0 lend by (rule seeded_level)
  moreover have "inv_rerun ?n ?seeds ?V ?d1 s0"
    using sd(2,3) fs(2) by (simp add: inv_rerun_def)
  ultimately have I0: "?I s0" using sd(1) by blast
  have step: "\<exists>t2. process_node ?nbrs node t1 = Inr t2 \<and> ?I t2"
    if "?I t" "pop_node t = Some (node, t1)" for t node t1
    by (rule process_node_rerun[OF _ _ _ _ assms(2) lenV H1 H2 that(2)]) (use that(1) in blast)+
  have "\<exists>s2. pit_loop ?nbrs s0 = Inr s2"
    using I0 step by (rule pit_loop_total[where I = ?I])
  then obtain s2 where s2: "pit_loop ?nbrs s0 = Inr s2" by blast
  from s2 I0 have "?I s2 \<and> pop_node s2 = None"
  proof (rule pit_loop_invariant)
    fix t node t1 t2
    assume "?I t" "pop_node t = Some (node, t1)" "process_node ?nbrs node t1 = Inr t2"
    then show "?I t2" using step[of t node t1] by auto
  qed
  then have "dem_of s2 = ?d1" by (simp add: inv_rerun_def)
  moreover have "flood self ?d1 = Inr s2" by (simp add: flood_def s0 s2)
  ultimately show ?thesis by blast
qed

text \<open>
  Claim C8. On a filler whose arrays have one entry per node, when \<^verbatim>\<open>pit_fill\<close> has
  returned, calling it again on its output (the same neighbor lists and boundary nodes)
  returns as well and leaves the store, and with it the elevation surface, exactly as the
  first call left it.
\<close>

theorem pit_fill_idempotent:
  assumes "length (neighbors self) = n_nodes self"
    and "length (heap st (dem_ref self)) = n_nodes self"
    and "pit_fill self st = Inr out"
  shows "pit_fill self out = Inr out"
proof -
  from assms(3) obtain s1 where s1: "flood self (heap st (dem_ref self)) = Inr s1"
    and out: "out = st\<lparr> heap := (heap st)(dem_ref self := dem_of s1),
                         elevation_field := Some (dem_ref self) \<rparr>"
    by (auto simp: pit_fill_def split: sum.splits)
  from flood_rerun[OF s1 assms(1,2)] obtain s2 where
    s2: "flood self (dem_of s1) = Inr s2" "dem_of s2 = dem_of s1" by blast
  have "heap out (dem_ref self) = dem_of s1" by (simp add: out)
  then show ?thesis using s2 by (simp add: pit_fill_def out)
qed

theorem pit_fill_idempotent_witness:
  "pit_fill pit_filler pit_store_copied = Inr pit_store_filled \<and>
   pit_fill pit_filler pit_store_filled = Inr pit_store_filled \<and>
   heap pit_store_filled (dem_ref pit_filler) = [0, 3, 3, 3]"
proof -
  have h1: "length (neighbors pit_filler) = n_nodes pit_filler" by (simp add: pit_filler_def)
  have h2: "length (heap pit_store_copied (dem_ref pit_filler)) = n_nodes pit_filler"
    by (simp add: pit_filler_def pit_store_copied_def)
  have h3: "pit_fill pit_filler pit_store_copied = Inr pit_store_filled" by (rule pit_fill_sample)
  have "heap pit_store_filled (dem_ref pit_filler) = [0, 3, 3, 3]"
    by (simp add: pit_store_filled_def pit_filler_def)
  with pit_fill_idempotent[OF h1 h2 h3] h3 show ?thesis by blast
qed

end
